theory Spec2Isabelle
  imports Main "HOL-Library.Monad_Syntax"
begin

unbundle bit_operations_syntax

section \<open>Memory model\<close>

text \<open>
  The kernels of \<^verbatim>\<open>simd_impl.h\<close> work on raw iterators into storage owned by the caller.
  A buffer is a list, an iterator is an integer position into its buffer, and a value of
  \<^verbatim>\<open>DifferenceType\<close> is an integer. Reading or writing outside the buffer is undefined
  behaviour in the source; in the model the access yields \<open>None\<close> and the kernel stops.
  Iterators and \<^verbatim>\<open>DifferenceType\<close> values are unbounded integers (a 64-bit
  \<^verbatim>\<open>ptrdiff_t\<close>, which no range in memory exhausts). A variable the source declares
  \<^verbatim>\<open>int\<close> is a 32-bit integer: a counter of that type has its overflow written out, and
  a predicate result stored in one goes through the conversion to \<^verbatim>\<open>int\<close>. The
  vectorisation pragmas do not change the sequential meaning of a loop and are not
  modelled.
\<close>

definition rd :: "'a list \<Rightarrow> int \<Rightarrow> 'a option" where
  "rd a p = (if 0 \<le> p \<and> p < int (length a) then Some (a ! nat p) else None)"

definition wr :: "'a list \<Rightarrow> int \<Rightarrow> 'a \<Rightarrow> 'a list option" where
  "wr a p v = (if 0 \<le> p \<and> p < int (length a) then Some (a[nat p := v]) else None)"

text \<open>The range \<open>[first, first + n)\<close> lies inside the buffer \<open>a\<close>.\<close>

definition valid_range :: "'a list \<Rightarrow> int \<Rightarrow> int \<Rightarrow> bool" where
  "valid_range a first n \<longleftrightarrow> 0 \<le> first \<and> 0 \<le> n \<and> first + n \<le> int (length a)"

text \<open>The elements of the range \<open>[first, first + n)\<close>, in order.\<close>

definition slice :: "'a list \<Rightarrow> int \<Rightarrow> int \<Rightarrow> 'a list" where
  "slice a first n = take (nat n) (drop (nat first) a)"

text \<open>
  \<^verbatim>\<open>for (i = lo; i < n; ++i) body\<close> with the variables the body updates as the state \<open>s\<close>.
\<close>

function for_loop :: "int \<Rightarrow> int \<Rightarrow> (int \<Rightarrow> 's \<Rightarrow> 's option) \<Rightarrow> 's \<Rightarrow> 's option" where
  "for_loop i n body s =
     (if i < n then (case body i s of None \<Rightarrow> None | Some s' \<Rightarrow> for_loop (i + 1) n body s')
      else Some s)"
  by pat_completeness auto
termination
  by (relation "measure (\<lambda>(i, n, body, s). nat (n - i))") auto

declare for_loop.simps [simp del]

text \<open>
  \<^verbatim>\<open>for (int i = lo; i < n; ++i) body\<close> where the bound \<open>n\<close> is a \<^verbatim>\<open>DifferenceType\<close>:
  the comparison is made in the wider type, and \<^verbatim>\<open>++i\<close> at \<^verbatim>\<open>INT_MAX\<close> is a signed
  overflow, undefined behaviour, \<open>None\<close> in the model.
\<close>

definition INT_MAX :: int where
  "INT_MAX = 2147483647"

function for_loop_int :: "int \<Rightarrow> int \<Rightarrow> (int \<Rightarrow> 's \<Rightarrow> 's option) \<Rightarrow> 's \<Rightarrow> 's option" where
  "for_loop_int i n body s =
     (if i < n then
        (case body i s of
           None \<Rightarrow> None
         | Some s' \<Rightarrow> if i + 1 > INT_MAX then None else for_loop_int (i + 1) n body s')
      else Some s)"
  by pat_completeness auto
termination
  by (relation "measure (\<lambda>(i, n, body, s). nat (n - i))") auto

declare for_loop_int.simps [simp del]

text \<open>
  A predicate is any callable; its result, of some type \<open>'r\<close>, is used in two ways. As
  the condition of an \<^verbatim>\<open>if\<close> it is converted to \<^verbatim>\<open>bool\<close> (\<open>truth\<close>); in
  \<^verbatim>\<open>int t = pred(..)\<close> it is converted to \<^verbatim>\<open>int\<close> (\<open>narrow\<close>, the value stored in
  \<open>t\<close>). \<open>bool_conv\<close> are the conversions of a \<^verbatim>\<open>bool\<close> result, \<open>uint64_conv\<close> those of
  an unsigned 64-bit result, given by its value: true when non-zero, and reduced modulo
  \<open>2^32\<close> into the range of \<^verbatim>\<open>int\<close>.
\<close>

record 'r conv =
  truth :: "'r \<Rightarrow> bool"
  narrow :: "'r \<Rightarrow> int"

definition bool_conv :: "bool conv" where
  "bool_conv = \<lparr>truth = (\<lambda>b. b), narrow = (\<lambda>b. if b then 1 else 0)\<rparr>"

definition uint64_conv :: "int conv" where
  "uint64_conv = \<lparr>truth = (\<lambda>v. v \<noteq> 0),
                   narrow = (\<lambda>v. (v + 2147483648) mod 4294967296 - 2147483648)\<rparr>"

section \<open>Counting and existence search\<close>

text \<open>\<^verbatim>\<open>simd_count\<close>: an additive reduction over the predicate.\<close>

definition simd_count :: "'a list \<Rightarrow> int \<Rightarrow> int \<Rightarrow> ('a \<Rightarrow> bool) \<Rightarrow> int option" where
  "simd_count a first n pred =
     for_loop 0 n
       (\<lambda>i count. do { x \<leftarrow> rd a (first + i); Some (if pred x then count + 1 else count) })
       0"

text \<open>
  \<^verbatim>\<open>simd_or\<close>. The macro \<^verbatim>\<open>__PSTL_EARLYEXIT_PRESENT\<close> depends on the compiler; it is
  the first parameter of every kernel that branches on it. With the capability present the
  loop returns at the first match.
\<close>

function simd_or_earlyexit :: "'a list \<Rightarrow> int \<Rightarrow> int \<Rightarrow> ('a \<Rightarrow> bool) \<Rightarrow> int \<Rightarrow> bool option" where
  "simd_or_earlyexit a first n pred i =
     (if i < n then
        do { x \<leftarrow> rd a (first + i);
             if pred x then Some True else simd_or_earlyexit a first n pred (i + 1) }
      else Some False)"
  by pat_completeness auto
termination
  by (relation "measure (\<lambda>(a, first, n, pred, i). nat (n - i))") auto

declare simd_or_earlyexit.simps [simp del]

text \<open>
  Without the capability: the \<^verbatim>\<open>while (last != first)\<close> loop with its adaptive block
  size. \<open>flag\<close> is the source's \<^verbatim>\<open>int flag\<close> (1 as \<open>True\<close>, 0 as \<open>False\<close>). The inner
  loop counts with \<^verbatim>\<open>int i\<close> up to the \<^verbatim>\<open>DifferenceType\<close> \<open>block_size\<close>. The outer
  loop does not end from a state with \<open>block_size = 0\<close> and \<open>first < last\<close>, so it is a
  partial function: \<open>None\<close> also stands for not returning.
\<close>

partial_function (option) simd_or_while ::
  "'a list \<Rightarrow> ('a \<Rightarrow> bool) \<Rightarrow> int \<Rightarrow> int \<Rightarrow> int \<Rightarrow> bool option" where
  "simd_or_while a pred last' first block_size =
     (if last' \<noteq> first then
        do { flag \<leftarrow> for_loop_int 0 block_size
                       (\<lambda>i flag. do { x \<leftarrow> rd a (first + i); Some (if pred x then False else flag) })
                       True;
             if \<not> flag then Some True
             else if last' - (first + block_size) \<ge> 2 * block_size
               then simd_or_while a pred last' (first + block_size) (2 * block_size)
               else simd_or_while a pred last' (first + block_size) (last' - (first + block_size)) }
      else Some False)"

declare simd_or_while.simps [code]

definition simd_or :: "bool \<Rightarrow> 'a list \<Rightarrow> int \<Rightarrow> int \<Rightarrow> ('a \<Rightarrow> bool) \<Rightarrow> bool option" where
  "simd_or earlyexit_present a first n pred =
     (if earlyexit_present then simd_or_earlyexit a first n pred 0
      else simd_or_while a pred (first + n) first (min 4 n))"

section \<open>First-match search\<close>

text \<open>
  \<^verbatim>\<open>simd_first\<close> with the capability present: the index loop that breaks at the first
  match and returns \<^verbatim>\<open>first + i\<close>.
\<close>

function simd_first_earlyexit :: "'a list \<Rightarrow> int \<Rightarrow> int \<Rightarrow> ('a \<Rightarrow> bool) \<Rightarrow> int \<Rightarrow> int option" where
  "simd_first_earlyexit a first n pred i =
     (if i < n then
        do { x \<leftarrow> rd a (first + i);
             if pred x then Some (first + i) else simd_first_earlyexit a first n pred (i + 1) }
      else Some (first + i))"
  by pat_completeness auto
termination
  by (relation "measure (\<lambda>(a, first, n, pred, i). nat (n - i))") auto

declare simd_first_earlyexit.simps [simp del]

text \<open>
  The scan of the lane buffer, \<^verbatim>\<open>for (i = 0; i < block_size; ++i) if (lane[i]) break;\<close>,
  which yields the final value of \<open>i\<close>. The lane buffer is a local array of
  \<^verbatim>\<open>block_size = 8\<close> entries of type \<^verbatim>\<open>int\<close>, modelled as a list of eight integers; an
  entry counts as true when it is not 0.
\<close>

function lane_scan :: "int list \<Rightarrow> int \<Rightarrow> int" where
  "lane_scan lane i =
     (if i < 8 then (if lane ! nat i \<noteq> 0 then i else lane_scan lane (i + 1)) else i)"
  by pat_completeness auto
termination
  by (relation "measure (\<lambda>(lane, i). nat (8 - i))") auto

declare lane_scan.simps [simp del]

text \<open>The scalar remainder loop \<^verbatim>\<open>while (last != first)\<close> of the one-stream kernel.\<close>

function simd_first_rest :: "'a list \<Rightarrow> ('a \<Rightarrow> bool) \<Rightarrow> int \<Rightarrow> int \<Rightarrow> int option" where
  "simd_first_rest a pred last' first =
     (if last' \<noteq> first then
        do { x \<leftarrow> rd a first;
             if pred x then Some first else simd_first_rest a pred last' (first + 1) }
      else Some last')"
  by pat_completeness auto
termination
  by (relation "measure (\<lambda>(a, pred, last', first). nat (int (length a) - first))")
     (auto simp: rd_def split: if_splits)

declare simd_first_rest.simps [simp del]

text \<open>
  The block loop \<^verbatim>\<open>while (last - first >= block_size)\<close>. The lane buffer is declared
  before the loop, so it is carried from one block to the next. In the block the predicate
  result is stored in \<^verbatim>\<open>int t\<close>, written to the lane and or-ed bitwise into the
  \<^verbatim>\<open>int found\<close>. When the loop condition fails the remainder loop takes over, which uses
  the predicate result as a condition.
\<close>

function simd_first_while ::
  "'r conv \<Rightarrow> 'a list \<Rightarrow> ('a \<Rightarrow> 'r) \<Rightarrow> int \<Rightarrow> int list \<Rightarrow> int \<Rightarrow> int option" where
  "simd_first_while cv a pred last' lane first =
     (if last' - first \<ge> 8 then
        do { (lane', found) \<leftarrow>
               for_loop 0 8
                 (\<lambda>i (lane, found). do { x \<leftarrow> rd a (first + i);
                                         let t = narrow cv (pred x);
                                         Some (lane[nat i := t], found OR t) })
                 (lane, 0);
             if found \<noteq> 0 then Some (first + lane_scan lane' 0)
             else simd_first_while cv a pred last' lane' (first + 8) }
      else simd_first_rest a (\<lambda>x. truth cv (pred x)) last' first)"
  by pat_completeness auto
termination
  by (relation "measure (\<lambda>(cv, a, pred, last', lane, first). nat (last' - first))") auto

declare simd_first_while.simps [simp del]

text \<open>
  \<^verbatim>\<open>simd_first\<close>; \<open>cv\<close> are the conversions of the predicate's result type.
\<close>

definition simd_first ::
  "'r conv \<Rightarrow> bool \<Rightarrow> 'a list \<Rightarrow> int \<Rightarrow> int \<Rightarrow> ('a \<Rightarrow> 'r) \<Rightarrow> int option" where
  "simd_first cv earlyexit_present a first n pred =
     (if earlyexit_present then simd_first_earlyexit a first n (\<lambda>x. truth cv (pred x)) 0
      else simd_first_while cv a pred (first + n) (replicate 8 0) first)"

text \<open>
  The two-stream \<^verbatim>\<open>simd_first\<close>: the same three loops over two zipped ranges, the first
  in buffer \<open>a1\<close> and the second in buffer \<open>a2\<close>.
\<close>

function simd_first2_earlyexit ::
  "'a list \<Rightarrow> int \<Rightarrow> int \<Rightarrow> 'b list \<Rightarrow> int \<Rightarrow> ('a \<Rightarrow> 'b \<Rightarrow> bool) \<Rightarrow> int \<Rightarrow> int option" where
  "simd_first2_earlyexit a1 first1 n a2 first2 pred i =
     (if i < n then
        do { x \<leftarrow> rd a1 (first1 + i);
             y \<leftarrow> rd a2 (first2 + i);
             if pred x y then Some (first1 + i)
             else simd_first2_earlyexit a1 first1 n a2 first2 pred (i + 1) }
      else Some (first1 + i))"
  by pat_completeness auto
termination
  by (relation "measure (\<lambda>(a1, first1, n, a2, first2, pred, i). nat (n - i))") auto

declare simd_first2_earlyexit.simps [simp del]

function simd_first2_rest ::
  "'a list \<Rightarrow> 'b list \<Rightarrow> ('a \<Rightarrow> 'b \<Rightarrow> bool) \<Rightarrow> int \<Rightarrow> int \<Rightarrow> int \<Rightarrow> int option" where
  "simd_first2_rest a1 a2 pred last1 first1 first2 =
     (if last1 \<noteq> first1 then
        do { x \<leftarrow> rd a1 first1;
             y \<leftarrow> rd a2 first2;
             if pred x y then Some first1
             else simd_first2_rest a1 a2 pred last1 (first1 + 1) (first2 + 1) }
      else Some last1)"
  by pat_completeness auto
termination
  by (relation "measure (\<lambda>(a1, a2, pred, last1, first1, first2). nat (int (length a1) - first1))")
     (auto simp: rd_def split: if_splits)

declare simd_first2_rest.simps [simp del]

function simd_first2_while ::
  "'r conv \<Rightarrow> 'a list \<Rightarrow> 'b list \<Rightarrow> ('a \<Rightarrow> 'b \<Rightarrow> 'r) \<Rightarrow> int \<Rightarrow> int list \<Rightarrow> int \<Rightarrow> int \<Rightarrow>
   int option" where
  "simd_first2_while cv a1 a2 pred last1 lane first1 first2 =
     (if last1 - first1 \<ge> 8 then
        do { (lane', found) \<leftarrow>
               for_loop 0 8
                 (\<lambda>i (lane, found). do { x \<leftarrow> rd a1 (first1 + i);
                                         y \<leftarrow> rd a2 (first2 + i);
                                         let t = narrow cv (pred x y);
                                         Some (lane[nat i := t], found OR t) })
                 (lane, 0);
             if found \<noteq> 0 then Some (first1 + lane_scan lane' 0)
             else simd_first2_while cv a1 a2 pred last1 lane' (first1 + 8) (first2 + 8) }
      else simd_first2_rest a1 a2 (\<lambda>x y. truth cv (pred x y)) last1 first1 first2)"
  by pat_completeness auto
termination
  by (relation
       "measure (\<lambda>(cv, a1, a2, pred, last1, lane, first1, first2). nat (last1 - first1))") auto

declare simd_first2_while.simps [simp del]

definition simd_first2 ::
  "'r conv \<Rightarrow> bool \<Rightarrow> 'a list \<Rightarrow> int \<Rightarrow> int \<Rightarrow> 'b list \<Rightarrow> int \<Rightarrow> ('a \<Rightarrow> 'b \<Rightarrow> 'r) \<Rightarrow>
   int option" where
  "simd_first2 cv earlyexit_present a1 first1 n a2 first2 pred =
     (if earlyexit_present
      then simd_first2_earlyexit a1 first1 n a2 first2 (\<lambda>x y. truth cv (pred x y)) 0
      else simd_first2_while cv a1 a2 pred (first1 + n) (replicate 8 0) first1 first2)"

section \<open>Compaction and mask kernels\<close>

text \<open>
  The compaction kernels write through the output iterator \<open>result\<close> into the buffer
  \<open>out\<close>, which is distinct from the input buffer. A kernel returns the iterator the source
  returns together with the output buffer after the call.
\<close>

definition simd_unique_copy ::
  "'a list \<Rightarrow> int \<Rightarrow> int \<Rightarrow> 'a list \<Rightarrow> int \<Rightarrow> ('a \<Rightarrow> 'a \<Rightarrow> bool) \<Rightarrow> (int \<times> 'a list) option" where
  "simd_unique_copy a first n out result pred =
     (if n = 0 then Some (result, out)
      else
        do { x0 \<leftarrow> rd a (first + 0);
             out0 \<leftarrow> wr out (result + 0) x0;
             (cnt, out') \<leftarrow>
               for_loop 1 n
                 (\<lambda>i (cnt, out). do { x \<leftarrow> rd a (first + i);
                                      y \<leftarrow> rd a (first + (i - 1));
                                      if \<not> pred x y
                                      then do { out' \<leftarrow> wr out (result + cnt) x; Some (cnt + 1, out') }
                                      else Some (cnt, out) })
                 (1, out0);
             Some (result + cnt, out') })"

definition simd_copy_if ::
  "'a list \<Rightarrow> int \<Rightarrow> int \<Rightarrow> 'a list \<Rightarrow> int \<Rightarrow> ('a \<Rightarrow> bool) \<Rightarrow> (int \<times> 'a list) option" where
  "simd_copy_if a first n out result pred =
     do { (cnt, out') \<leftarrow>
            for_loop 0 n
              (\<lambda>i (cnt, out). do { x \<leftarrow> rd a (first + i);
                                   if pred x
                                   then do { out' \<leftarrow> wr out (result + cnt) x; Some (cnt + 1, out') }
                                   else Some (cnt, out) })
              (0, out);
          Some (result + cnt, out') }"

text \<open>
  The mask kernels write through the pointer \<open>mask'\<close> (the source's \<^verbatim>\<open>mask\<close>) into
  the buffer \<open>m\<close> and return the number of true entries with the buffer after the call.
  \<^verbatim>\<open>count += mask[i]\<close> reads back
  the entry just written.
\<close>

definition simd_calc_mask_2 ::
  "'a list \<Rightarrow> int \<Rightarrow> int \<Rightarrow> bool list \<Rightarrow> int \<Rightarrow> ('a \<Rightarrow> 'a \<Rightarrow> bool) \<Rightarrow> (int \<times> bool list) option" where
  "simd_calc_mask_2 a first n m mask' pred =
     for_loop 0 n
       (\<lambda>i (count, m). do { x \<leftarrow> rd a (first + i);
                            y \<leftarrow> rd a (first + (i - 1));
                            m' \<leftarrow> wr m (mask' + i) (\<not> pred x y);
                            b \<leftarrow> rd m' (mask' + i);
                            Some (count + (if b then 1 else 0), m') })
       (0, m)"

definition simd_calc_mask_1 ::
  "'a list \<Rightarrow> int \<Rightarrow> int \<Rightarrow> bool list \<Rightarrow> int \<Rightarrow> ('a \<Rightarrow> bool) \<Rightarrow> (int \<times> bool list) option" where
  "simd_calc_mask_1 a first n m mask' pred =
     for_loop 0 n
       (\<lambda>i (count, m). do { x \<leftarrow> rd a (first + i);
                            m' \<leftarrow> wr m (mask' + i) (pred x);
                            b \<leftarrow> rd m' (mask' + i);
                            Some (count + (if b then 1 else 0), m') })
       (0, m)"

text \<open>
  \<^verbatim>\<open>simd_copy_by_mask\<close> is declared \<^verbatim>\<open>void\<close>: its returned value is of type \<open>unit\<close>,
  and the local counter \<open>cnt\<close> is dropped when the loop ends.
\<close>

definition simd_copy_by_mask ::
  "'a list \<Rightarrow> int \<Rightarrow> int \<Rightarrow> 'a list \<Rightarrow> int \<Rightarrow> bool list \<Rightarrow> int \<Rightarrow> (unit \<times> 'a list) option" where
  "simd_copy_by_mask a first n out result m mask' =
     do { (cnt, out') \<leftarrow>
            for_loop 0 n
              (\<lambda>i (cnt, out). do { b \<leftarrow> rd m (mask' + i);
                                   if b
                                   then do { x \<leftarrow> rd a (first + i);
                                             out' \<leftarrow> wr out (result + cnt) x;
                                             Some (cnt + 1, out') }
                                   else Some (cnt, out) })
              (0, out);
          Some ((), out') }"

section \<open>Adjacent-find\<close>

text \<open>
  With the capability present: the index loop over \<^verbatim>\<open>n = last - first - 1\<close> pairs, which
  yields the final value of \<open>i\<close>.
\<close>

function simd_adjacent_find_earlyexit ::
  "'a list \<Rightarrow> int \<Rightarrow> ('a \<Rightarrow> 'a \<Rightarrow> bool) \<Rightarrow> int \<Rightarrow> int \<Rightarrow> int option" where
  "simd_adjacent_find_earlyexit a first pred n i =
     (if i < n then
        do { x \<leftarrow> rd a (first + i);
             y \<leftarrow> rd a (first + (i + 1));
             if pred x y then Some i else simd_adjacent_find_earlyexit a first pred n (i + 1) }
      else Some i)"
  by pat_completeness auto
termination
  by (relation "measure (\<lambda>(a, first, pred, n, i). nat (n - i))") auto

declare simd_adjacent_find_earlyexit.simps [simp del]

text \<open>The loop over the rest, \<^verbatim>\<open>for (; last - first > 1; ++first)\<close>.\<close>

function simd_adjacent_find_rest :: "'a list \<Rightarrow> ('a \<Rightarrow> 'a \<Rightarrow> bool) \<Rightarrow> int \<Rightarrow> int \<Rightarrow> int option" where
  "simd_adjacent_find_rest a pred last' first =
     (if last' - first > 1 then
        do { x \<leftarrow> rd a first;
             y \<leftarrow> rd a (first + 1);
             if pred x y then Some first else simd_adjacent_find_rest a pred last' (first + 1) }
      else Some last')"
  by pat_completeness auto
termination
  by (relation "measure (\<lambda>(a, pred, last', first). nat (last' - first))") auto

declare simd_adjacent_find_rest.simps [simp del]

text \<open>
  The block loop. The inner loop fills lanes 0 to 6 from \<^verbatim>\<open>const int t = pred(..)\<close> and
  leaves \<open>i = 7\<close>; the pair on the block boundary is read only when
  \<^verbatim>\<open>first + block_size < last\<close>, its predicate result is used as a condition, and only a
  match there writes lane 7. With \<open>or_semantic\<close> the loop returns the current \<open>first\<close>,
  the start of the block.
\<close>

function simd_adjacent_find_while ::
  "'r conv \<Rightarrow> 'a list \<Rightarrow> ('a \<Rightarrow> 'a \<Rightarrow> 'r) \<Rightarrow> bool \<Rightarrow> int \<Rightarrow> int list \<Rightarrow> int \<Rightarrow> int option" where
  "simd_adjacent_find_while cv a pred or_semantic last' lane first =
     (if last' - first \<ge> 8 then
        do { (lane1, found1) \<leftarrow>
               for_loop 0 (8 - 1)
                 (\<lambda>i (lane, found). do { x \<leftarrow> rd a (first + i);
                                         y \<leftarrow> rd a (first + i + 1);
                                         let t = narrow cv (pred x y);
                                         Some (lane[nat i := t], found OR t) })
                 (lane, 0);
             (lane2, found2) \<leftarrow>
               (if first + 8 < last' then
                  do { x \<leftarrow> rd a (first + 7);
                       y \<leftarrow> rd a (first + 7 + 1);
                       Some (if truth cv (pred x y) then (lane1[7 := 1], 1) else (lane1, found1)) }
                else Some (lane1, found1));
             if found2 \<noteq> 0 then
               (if or_semantic then Some first else Some (first + lane_scan lane2 0))
             else simd_adjacent_find_while cv a pred or_semantic last' lane2 (first + 8) }
      else simd_adjacent_find_rest a (\<lambda>x y. truth cv (pred x y)) last' first)"
  by pat_completeness auto
termination
  by (relation "measure (\<lambda>(cv, a, pred, or_semantic, last', lane, first). nat (last' - first))")
     auto

declare simd_adjacent_find_while.simps [simp del]

definition simd_adjacent_find ::
  "'r conv \<Rightarrow> bool \<Rightarrow> 'a list \<Rightarrow> int \<Rightarrow> int \<Rightarrow> ('a \<Rightarrow> 'a \<Rightarrow> 'r) \<Rightarrow> bool \<Rightarrow> int option" where
  "simd_adjacent_find cv earlyexit_present a first last' pred or_semantic =
     (if last' - first < 2 then Some last'
      else if earlyexit_present then
        do { i \<leftarrow> simd_adjacent_find_earlyexit a first (\<lambda>x y. truth cv (pred x y))
                    (last' - first - 1) 0;
             Some (if i < last' - first - 1 then first + i else last') }
      else simd_adjacent_find_while cv a pred or_semantic last' (replicate 8 0) first)"

section \<open>Subsequence search\<close>

text \<open>
  Modelled from the spec: \<^verbatim>\<open>not_pred\<close> is declared in \<^verbatim>\<open>common.h\<close>, which is not
  among the sources; the spec calls it the negated equivalence predicate. Its result is a
  \<^verbatim>\<open>bool\<close>, so the first-match kernel is called with the conversions \<open>bool_conv\<close>.
\<close>

definition not_pred :: "('a \<Rightarrow> 'b \<Rightarrow> bool) \<Rightarrow> 'a \<Rightarrow> 'b \<Rightarrow> bool" where
  "not_pred p = (\<lambda>x y. \<not> p x y)"

text \<open>
  The loop \<^verbatim>\<open>for (auto i = n1 - n2; i >= 0; --i, ++first)\<close> of \<^verbatim>\<open>simd_search\<close>. The
  haystack is in buffer \<open>a\<close>, the needle in buffer \<open>s\<close>. Besides \<open>result\<close> the model
  keeps a log \<open>tested\<close>, which is not in the source: the values of \<open>first\<close> at which the
  body ran, in the order it ran.
\<close>

function simd_search_for ::
  "bool \<Rightarrow> 'a list \<Rightarrow> 'b list \<Rightarrow> int \<Rightarrow> int \<Rightarrow> ('b \<Rightarrow> 'a \<Rightarrow> bool) \<Rightarrow> bool \<Rightarrow>
   int \<Rightarrow> int \<Rightarrow> int \<Rightarrow> int list \<Rightarrow> (int \<times> int list) option" where
  "simd_search_for earlyexit_present a s s_first s_last p b_first i first result tested =
     (if i \<ge> 0 then
        do { r \<leftarrow> simd_first2 bool_conv earlyexit_present s s_first (s_last - s_first) a first
                    (not_pred p);
             if r = s_last then
               (if b_first then Some (first, tested @ [first])
                else simd_search_for earlyexit_present a s s_first s_last p b_first
                       (i - 1) (first + 1) first (tested @ [first]))
             else simd_search_for earlyexit_present a s s_first s_last p b_first
                    (i - 1) (first + 1) result (tested @ [first]) }
      else Some (result, tested))"
  by pat_completeness auto
termination
  by (relation "measure (\<lambda>(e, a, s, s_first, s_last, p, b_first, i, first, result, tested). nat (i + 1))")
     auto

declare simd_search_for.simps [simp del]

text \<open>\<^verbatim>\<open>simd_search\<close> with its log; \<open>simd_search\<close> is the value the source returns.\<close>

definition simd_search_log ::
  "bool \<Rightarrow> 'a list \<Rightarrow> int \<Rightarrow> int \<Rightarrow> 'b list \<Rightarrow> int \<Rightarrow> int \<Rightarrow> ('b \<Rightarrow> 'a \<Rightarrow> bool) \<Rightarrow> bool \<Rightarrow>
   (int \<times> int list) option" where
  "simd_search_log earlyexit_present a first last' s s_first s_last p b_first =
     (let n2 = s_last - s_first in
      if n2 < 1 then Some (last', [])
      else
        let n1 = last' - first in
        if n1 < n2 then Some (last', [])
        else simd_search_for earlyexit_present a s s_first s_last p b_first (n1 - n2) first last' [])"

definition simd_search ::
  "bool \<Rightarrow> 'a list \<Rightarrow> int \<Rightarrow> int \<Rightarrow> 'b list \<Rightarrow> int \<Rightarrow> int \<Rightarrow> ('b \<Rightarrow> 'a \<Rightarrow> bool) \<Rightarrow> bool \<Rightarrow> int option" where
  "simd_search earlyexit_present a first last' s s_first s_last p b_first =
     map_option fst (simd_search_log earlyexit_present a first last' s s_first s_last p b_first)"

section \<open>Specification predicates\<close>

text \<open>
  The conversions \<open>cv\<close> are faithful when a result converts to a non-zero \<^verbatim>\<open>int\<close>
  exactly when it converts to \<open>true\<close>, as for \<^verbatim>\<open>bool\<close> and \<^verbatim>\<open>int\<close> results.
\<close>

definition faithful :: "'r conv \<Rightarrow> bool" where
  "faithful cv \<longleftrightarrow> (\<forall>r. narrow cv r \<noteq> 0 \<longleftrightarrow> truth cv r)"

text \<open>
  \<open>block_start first last r\<close>: for a position \<open>r\<close> of the range \<open>[first, last)\<close>, the start
  of the block of 8 (counted from \<open>first\<close>) that holds \<open>r\<close> when that block is a full
  one, handled by the block loop of adjacent-find, and \<open>r\<close> itself when \<open>r\<close> lies in the
  remainder or is \<open>last\<close>.
\<close>

definition block_start :: "int \<Rightarrow> int \<Rightarrow> int \<Rightarrow> int" where
  "block_start first last' r =
     (if r = last' then last'
      else if 8 * ((r - first) div 8) + 8 \<le> last' - first then first + 8 * ((r - first) div 8)
      else r)"

text \<open>
  \<open>pair_detected cv a pred first last j\<close>: what the block strategy of adjacent-find makes
  of the pair at \<open>j\<close>: lanes 0 to 6 of a full block go through \<^verbatim>\<open>int t\<close>, the boundary
  lane and the remainder use the result as a condition.
\<close>

definition pair_detected ::
  "'r conv \<Rightarrow> 'a list \<Rightarrow> ('a \<Rightarrow> 'a \<Rightarrow> 'r) \<Rightarrow> int \<Rightarrow> int \<Rightarrow> int \<Rightarrow> bool" where
  "pair_detected cv a pred first last' j =
     (if 8 * ((j - first) div 8) + 8 \<le> last' - first \<and> (j - first) mod 8 < 7
      then narrow cv (pred (a ! nat j) (a ! nat (j + 1))) \<noteq> 0
      else truth cv (pred (a ! nat j) (a ! nat (j + 1))))"

text \<open>
  \<open>first_hit P lo hi r\<close>: \<open>r\<close> is the least position in \<open>[lo, hi)\<close> at which \<open>P\<close> holds,
  or \<open>hi\<close> when there is none. It is used to state what the search loops compute.
\<close>

definition first_hit :: "(int \<Rightarrow> bool) \<Rightarrow> int \<Rightarrow> int \<Rightarrow> int \<Rightarrow> bool" where
  "first_hit P lo hi r \<longleftrightarrow> lo \<le> r \<and> r \<le> hi \<and> (\<forall>j. lo \<le> j \<and> j < r \<longrightarrow> \<not> P j) \<and> (r < hi \<longrightarrow> P r)"

text \<open>
  \<open>patch out result ys\<close>: the buffer \<open>out\<close> with the elements \<open>ys\<close> stored at the consecutive
  positions \<open>result, result + 1, \<dots>\<close> and every other position unchanged.
\<close>

definition patch :: "'a list \<Rightarrow> int \<Rightarrow> 'a list \<Rightarrow> 'a list" where
  "patch out result ys = take (nat result) out @ ys @ drop (nat result + length ys) out"

text \<open>The elements of \<open>xs\<close> whose mask entry is true, in order.\<close>

definition mask_select :: "'a list \<Rightarrow> bool list \<Rightarrow> 'a list" where
  "mask_select xs ms = map fst (filter snd (zip xs ms))"

text \<open>
  The elements unique-copy keeps: element 0, and every later element that the predicate
  does not relate to its predecessor in the input. \<open>unique_after pred p\<close> is the rest of the
  scan with \<open>p\<close> the previous input element.
\<close>

fun unique_after :: "('a \<Rightarrow> 'a \<Rightarrow> bool) \<Rightarrow> 'a \<Rightarrow> 'a list \<Rightarrow> 'a list" where
  "unique_after pred p [] = []"
| "unique_after pred p (y # ys) =
     (if \<not> pred y p then y # unique_after pred y ys else unique_after pred y ys)"

fun unique_list :: "('a \<Rightarrow> 'a \<Rightarrow> bool) \<Rightarrow> 'a list \<Rightarrow> 'a list" where
  "unique_list pred [] = []"
| "unique_list pred (x # xs) = x # unique_after pred x xs"

text \<open>
  The needle \<open>[s_first, s_last)\<close> of buffer \<open>s\<close> occurs in buffer \<open>a\<close> at position \<open>pos\<close>:
  every needle element is related by \<open>p\<close> to the element of \<open>a\<close> at the same offset from
  \<open>pos\<close>.
\<close>

definition occurs_at :: "'a list \<Rightarrow> 'b list \<Rightarrow> int \<Rightarrow> int \<Rightarrow> ('b \<Rightarrow> 'a \<Rightarrow> bool) \<Rightarrow> int \<Rightarrow> bool" where
  "occurs_at a s s_first s_last p pos \<longleftrightarrow>
     list_all2 p (slice s s_first (s_last - s_first)) (slice a pos (s_last - s_first))"

section \<open>Basic facts about reads, ranges and loops\<close>

lemma rd_Some: "0 \<le> p \<Longrightarrow> p < int (length a) \<Longrightarrow> rd a p = Some (a ! nat p)"
  by (simp add: rd_def)

lemma length_slice: "valid_range a first n \<Longrightarrow> length (slice a first n) = nat n"
  by (auto simp: valid_range_def slice_def)

lemma slice_nth:
  "valid_range a first n \<Longrightarrow> 0 \<le> i \<Longrightarrow> i < n \<Longrightarrow> slice a first n ! nat i = a ! nat (first + i)"
  by (auto simp: valid_range_def slice_def nat_add_distrib)

lemma rd_range:
  "valid_range a first n \<Longrightarrow> 0 \<le> i \<Longrightarrow> i < n \<Longrightarrow> rd a (first + i) = Some (a ! nat (first + i))"
  by (auto simp: rd_def valid_range_def)

lemma rd_slice:
  "valid_range a first n \<Longrightarrow> 0 \<le> i \<Longrightarrow> i < n \<Longrightarrow> rd a (first + i) = Some (slice a first n ! nat i)"
  by (simp add: rd_range slice_nth)

lemma set_slice:
  assumes "valid_range a first n"
  shows "(\<exists>x\<in>set (slice a first n). P x) \<longleftrightarrow> (\<exists>i. 0 \<le> i \<and> i < n \<and> P (a ! nat (first + i)))"
proof
  assume "\<exists>x\<in>set (slice a first n). P x"
  then obtain k where k: "k < length (slice a first n)" "P (slice a first n ! k)"
    by (auto simp: in_set_conv_nth)
  then have "0 \<le> int k \<and> int k < n \<and> P (a ! nat (first + int k))"
    using slice_nth[OF assms, of "int k"] length_slice[OF assms] by auto
  then show "\<exists>i. 0 \<le> i \<and> i < n \<and> P (a ! nat (first + i))" by blast
next
  assume "\<exists>i. 0 \<le> i \<and> i < n \<and> P (a ! nat (first + i))"
  then obtain i where i: "0 \<le> i" "i < n" "P (a ! nat (first + i))" by blast
  then have "nat i < length (slice a first n)" "P (slice a first n ! nat i)"
    using slice_nth[OF assms, of i] length_slice[OF assms] by auto
  then show "\<exists>x\<in>set (slice a first n). P x" using nth_mem by blast
qed

lemma for_loop_rule:
  assumes "I i s" and "i \<le> n"
    and "\<And>j t. i \<le> j \<Longrightarrow> j < n \<Longrightarrow> I j t \<Longrightarrow> \<exists>t'. body j t = Some t' \<and> I (j + 1) t'"
  shows "\<exists>s'. for_loop i n body s = Some s' \<and> I n s'"
  using assms
proof (induction i n body s rule: for_loop.induct)
  case (1 i n body s)
  show ?case
  proof (cases "i < n")
    case True
    from "1.prems"(3)[of i s] True "1.prems"(1)
    obtain t' where t': "body i s = Some t'" "I (i + 1) t'" by auto
    have "\<exists>s'. for_loop (i + 1) n body t' = Some s' \<and> I n s'"
      using "1.IH"[OF True t'(1) t'(2)] True "1.prems"(3) by force
    then show ?thesis using True t'(1) by (subst for_loop.simps) simp
  next
    case False
    with "1.prems" have "i = n" by simp
    then show ?thesis using "1.prems"(1) by (subst for_loop.simps) simp
  qed
qed

lemma take_nat_step:
  "0 \<le> j \<Longrightarrow> j < int (length xs) \<Longrightarrow> take (nat (j + 1)) xs = take (nat j) xs @ [xs ! nat j]"
  by (simp add: nat_add_distrib take_Suc_conv_app_nth)

lemma simd_count_slice:
  assumes "valid_range a first n"
  shows "simd_count a first n pred = Some (int (length (filter pred (slice a first n))))"
proof -
  let ?xs = "slice a first n"
  let ?I = "\<lambda>j c. c = int (length (filter pred (take (nat j) ?xs)))"
  have n: "0 \<le> n" "length ?xs = nat n" using assms length_slice by (auto simp: valid_range_def)
  have "\<exists>s'. for_loop 0 n (\<lambda>i count. do { x \<leftarrow> rd a (first + i); Some (if pred x then count + 1 else count) }) 0 = Some s' \<and> ?I n s'"
  proof (rule for_loop_rule[where I = ?I])
    fix j t assume j: "0 \<le> j" "j < n" and t: "?I j t"
    show "\<exists>t'. do { x \<leftarrow> rd a (first + j); Some (if pred x then t + 1 else t) } = Some t' \<and> ?I (j + 1) t'"
      using j t n by (simp add: rd_slice[OF assms] take_nat_step)
  qed (use n in auto)
  then show ?thesis using n by (simp add: simd_count_def)
qed

lemma simd_or_earlyexit_range:
  assumes "valid_range a first n" and "0 \<le> i"
  shows "simd_or_earlyexit a first n pred i = Some (\<exists>j. i \<le> j \<and> j < n \<and> pred (a ! nat (first + j)))"
  using assms
proof (induction a first n pred i rule: simd_or_earlyexit.induct)
  case (1 a first n pred i)
  show ?case
  proof (cases "i < n")
    case True
    have r: "rd a (first + i) = Some (a ! nat (first + i))"
      using rd_range[OF "1.prems"(1) "1.prems"(2) True] .
    show ?thesis
    proof (cases "pred (a ! nat (first + i))")
      case p: True
      then show ?thesis using True r by (subst simd_or_earlyexit.simps) auto
    next
      case p: False
      have "simd_or_earlyexit a first n pred (i + 1)
            = Some (\<exists>j. i + 1 \<le> j \<and> j < n \<and> pred (a ! nat (first + j)))"
        using "1.IH"[OF True r p "1.prems"(1)] "1.prems"(2) by simp
      moreover have "(\<exists>j. i + 1 \<le> j \<and> j < n \<and> pred (a ! nat (first + j)))
                   \<longleftrightarrow> (\<exists>j. i \<le> j \<and> j < n \<and> pred (a ! nat (first + j)))"
        using p by (metis add1_zle_eq order_le_less)
      ultimately show ?thesis using True r p by (subst simd_or_earlyexit.simps) simp
    qed
  next
    case False
    then show ?thesis by (subst simd_or_earlyexit.simps) auto
  qed
qed

lemma or_block_flag:
  assumes "0 \<le> first" and "0 \<le> bs" and "first + bs \<le> int (length a)"
  shows "for_loop 0 bs (\<lambda>i flag. do { x \<leftarrow> rd a (first + i); Some (if pred x then False else flag) }) True
         = Some (\<not> (\<exists>j. 0 \<le> j \<and> j < bs \<and> pred (a ! nat (first + j))))"
proof -
  let ?I = "\<lambda>j flag. flag \<longleftrightarrow> \<not> (\<exists>k. 0 \<le> k \<and> k < j \<and> pred (a ! nat (first + k)))"
  let ?body = "\<lambda>i flag. do { x \<leftarrow> rd a (first + i); Some (if pred x then False else flag) }"
  have "\<exists>s'. for_loop 0 bs ?body True = Some s' \<and> ?I bs s'"
  proof (rule for_loop_rule[where I = ?I])
    fix j t assume j: "0 \<le> j" "j < bs" and t: "?I j t"
    have r: "rd a (first + j) = Some (a ! nat (first + j))"
      using j assms by (simp add: rd_def)
    have "(\<exists>k. 0 \<le> k \<and> k < j + 1 \<and> pred (a ! nat (first + k)))
          \<longleftrightarrow> (\<exists>k. 0 \<le> k \<and> k < j \<and> pred (a ! nat (first + k))) \<or> pred (a ! nat (first + j))"
      using j(1) by (metis add1_zle_eq order_le_less zle_add1_eq_le order_refl)
    then show "\<exists>t'. ?body j t = Some t' \<and> ?I (j + 1) t'"
      using t r by auto
  qed (use assms in auto)
  then show ?thesis by auto
qed

lemma for_loop_int_eq:
  "n \<le> INT_MAX \<Longrightarrow> for_loop_int i n body s = for_loop i n body s"
proof (induction i n body s rule: for_loop_int.induct)
  case (1 i n body s)
  show ?case
  proof (cases "i < n")
    case False
    then show ?thesis by (simp add: for_loop_int.simps[of i] for_loop.simps[of i])
  next
    case True
    then have no: "\<not> i + 1 > INT_MAX" using "1.prems" by simp
    show ?thesis
    proof (cases "body i s")
      case None
      then show ?thesis using True by (simp add: for_loop_int.simps[of i] for_loop.simps[of i])
    next
      case (Some s')
      then show ?thesis
        using True no "1.IH"[OF True Some no "1.prems"]
        by (simp add: for_loop_int.simps[of i] for_loop.simps[of i])
    qed
  qed
qed

lemma for_loop_int_overflow:
  "INT_MAX < n \<Longrightarrow> i \<le> INT_MAX \<Longrightarrow> for_loop_int i n body s = None"
proof (induction i n body s rule: for_loop_int.induct)
  case (1 i n body s)
  have lt: "i < n" using "1.prems" by simp
  show ?case
  proof (cases "body i s")
    case None
    then show ?thesis using lt by (simp add: for_loop_int.simps[of i])
  next
    case (Some s')
    show ?thesis
    proof (cases "i + 1 > INT_MAX")
      case True
      then show ?thesis using lt Some by (simp add: for_loop_int.simps[of i])
    next
      case False
      then have "for_loop_int (i + 1) n body s' = None"
        using "1.IH"[OF lt Some False "1.prems"(1)] by simp
      then show ?thesis using lt Some False by (simp add: for_loop_int.simps[of i])
    qed
  qed
qed

lemma simd_or_while_range:
  assumes "0 \<le> first" and "first \<le> last'" and "last' \<le> int (length a)"
    and "first = last' \<or> (0 < bs \<and> bs \<le> last' - first)"
    and "first0 \<le> first" and "bs \<le> first - first0 + 4" and "last' - first0 < 4294967292"
  shows "simd_or_while a pred last' first bs = Some (\<exists>p. first \<le> p \<and> p < last' \<and> pred (a ! nat p))"
  using assms
proof (induction "nat (last' - first)" arbitrary: first bs rule: less_induct)
  case less
  show ?case
  proof (cases "last' = first")
    case True
    then show ?thesis by (subst simd_or_while.simps) auto
  next
    case False
    with less.prems have bs: "0 < bs" "bs \<le> last' - first" by auto
    have "2 * bs \<le> last' - first0 + 4" using bs less.prems by linarith
    then have small: "bs \<le> INT_MAX" using less.prems(7) by (simp add: INT_MAX_def)
    let ?hit = "\<exists>j. 0 \<le> j \<and> j < bs \<and> pred (a ! nat (first + j))"
    have flag: "for_loop_int 0 bs (\<lambda>i flag. do { x \<leftarrow> rd a (first + i); Some (if pred x then False else flag) }) True
         = Some (\<not> ?hit)"
      using or_block_flag[of first bs a pred] less.prems bs by (simp add: for_loop_int_eq[OF small])
    show ?thesis
    proof (cases ?hit)
      case True
      then obtain j where j: "0 \<le> j" "j < bs" "pred (a ! nat (first + j))" by blast
      then have "first \<le> first + j \<and> first + j < last' \<and> pred (a ! nat (first + j))"
        using bs by simp
      then have "\<exists>p. first \<le> p \<and> p < last' \<and> pred (a ! nat p)" by blast
      then show ?thesis using False flag True by (subst simd_or_while.simps) simp
    next
      case nohit: False
      let ?f = "first + bs"
      let ?bs = "if last' - ?f \<ge> 2 * bs then 2 * bs else last' - ?f"
      have IH: "simd_or_while a pred last' ?f ?bs = Some (\<exists>p. ?f \<le> p \<and> p < last' \<and> pred (a ! nat p))"
      proof (rule less.hyps)
        show "nat (last' - ?f) < nat (last' - first)" using bs by linarith
        show "0 \<le> ?f" "?f \<le> last'" "last' \<le> int (length a)" "first0 \<le> ?f"
          "last' - first0 < 4294967292"
          using less.prems bs by linarith+
        show "?f = last' \<or> 0 < ?bs \<and> ?bs \<le> last' - ?f" using bs by auto
        show "?bs \<le> ?f - first0 + 4" using less.prems(6) bs by auto
      qed
      have split: "(\<exists>p. first \<le> p \<and> p < last' \<and> pred (a ! nat p))
                 \<longleftrightarrow> (\<exists>p. ?f \<le> p \<and> p < last' \<and> pred (a ! nat p))" (is "?L \<longleftrightarrow> ?R")
      proof
        assume ?L
        then obtain p where p: "first \<le> p" "p < last'" "pred (a ! nat p)" by blast
        have "\<not> p < ?f"
        proof
          assume "p < ?f"
          then have "0 \<le> p - first \<and> p - first < bs \<and> pred (a ! nat (first + (p - first)))"
            using p by simp
          with nohit show False by blast
        qed
        then show ?R using p by (intro exI[of _ p]) simp
      next
        assume ?R
        then show ?L using bs by (meson add_increasing2 less_imp_le order_trans le_add_same_cancel1)
      qed
      show ?thesis
        using False flag nohit IH split
        by (subst simd_or_while.simps) (simp split: if_splits)
    qed
  qed
qed

lemma simd_or_range:
  assumes "valid_range a first n" and "ee \<or> n < 4294967292"
  shows "simd_or ee a first n pred = Some (\<exists>x\<in>set (slice a first n). pred x)"
proof (cases ee)
  case True
  then show ?thesis
    using simd_or_earlyexit_range[OF assms(1), of 0 pred]
    by (simp add: simd_or_def set_slice[OF assms(1)])
next
  case False
  have "simd_or_while a pred (first + n) first (min 4 n)
        = Some (\<exists>p. first \<le> p \<and> p < first + n \<and> pred (a ! nat p))"
    by (rule simd_or_while_range[where ?first0.0 = first])
       (use assms False in \<open>auto simp: valid_range_def\<close>)
  moreover have "(\<exists>p. first \<le> p \<and> p < first + n \<and> pred (a ! nat p))
               \<longleftrightarrow> (\<exists>i. 0 \<le> i \<and> i < n \<and> pred (a ! nat (first + i)))" (is "?L \<longleftrightarrow> ?R")
  proof
    assume ?L
    then obtain p where "first \<le> p" "p < first + n" "pred (a ! nat p)" by blast
    then have "0 \<le> p - first \<and> p - first < n \<and> pred (a ! nat (first + (p - first)))" by simp
    then show ?R by blast
  next
    assume ?R
    then obtain i where "0 \<le> i" "i < n" "pred (a ! nat (first + i))" by blast
    then have "first \<le> first + i \<and> first + i < first + n \<and> pred (a ! nat (first + i))" by simp
    then show ?L by blast
  qed
  ultimately show ?thesis using False by (simp add: simd_or_def set_slice[OF assms(1)])
qed

text \<open>
  Once the block size has doubled to \<open>2^31\<close> the \<^verbatim>\<open>int\<close> counter of the inner loop cannot
  reach it. \<open>bs * 2 ^ j = 2^31\<close> says that \<open>j\<close> doublings are left.
\<close>

lemma simd_or_while_overflow:
  assumes "0 \<le> first" and "first + n \<le> int (length a)" and "4294967292 \<le> n"
    and "\<forall>p. first \<le> p \<and> p < first + 2147483644 \<longrightarrow> \<not> pred (a ! nat p)"
    and "bs * 2 ^ j = 2147483648" and "4 \<le> bs"
  shows "simd_or_while a pred (first + n) (first + bs - 4) bs = None"
  using assms(5,6)
proof (induction j arbitrary: bs)
  case 0
  then have big: "INT_MAX < bs" by (simp add: INT_MAX_def)
  have "first + n \<noteq> first + bs - 4" using 0 assms(3) by simp
  then show ?case
    by (subst simd_or_while.simps) (simp add: for_loop_int_overflow[OF big] INT_MAX_def)
next
  case (Suc j)
  have bs: "2 * bs \<le> 2147483648" "0 < bs"
  proof -
    have "(1 :: int) \<le> 2 ^ j" by simp
    then have "bs * 2 \<le> bs * 2 * 2 ^ j" using Suc.prems(2) by (simp add: mult_le_cancel_left_pos)
    then show "2 * bs \<le> 2147483648" using Suc.prems(1) by (simp add: mult.assoc mult.commute)
    show "0 < bs" using Suc.prems(2) by simp
  qed
  let ?cur = "first + bs - 4"
  have small: "bs \<le> INT_MAX" using bs by (simp add: INT_MAX_def)
  have ne: "first + n \<noteq> ?cur" using bs assms(3) by simp
  have nohit: "\<not> (\<exists>k. 0 \<le> k \<and> k < bs \<and> pred (a ! nat (?cur + k)))"
  proof
    assume "\<exists>k. 0 \<le> k \<and> k < bs \<and> pred (a ! nat (?cur + k))"
    then obtain k where k: "0 \<le> k" "k < bs" "pred (a ! nat (?cur + k))" by blast
    have "first \<le> ?cur + k \<and> ?cur + k < first + 2147483644" using k bs Suc.prems(2) by simp
    with assms(4) k(3) show False by blast
  qed
  have flag: "for_loop_int 0 bs (\<lambda>i flag. do { x \<leftarrow> rd a (?cur + i); Some (if pred x then False else flag) }) True
         = Some True"
    using or_block_flag[of ?cur bs a pred] assms(1-3) bs Suc.prems(2) nohit
    by (simp add: for_loop_int_eq[OF small])
  have dbl: "first + n - (?cur + bs) \<ge> 2 * bs" using bs assms(3) by simp
  have IH: "simd_or_while a pred (first + n) (first + 2 * bs - 4) (2 * bs) = None"
    by (rule Suc.IH) (use Suc.prems in \<open>simp_all add: mult.assoc mult.commute mult.left_commute\<close>)
  have nxt: "?cur + bs = first + 2 * bs - 4" by simp
  show ?case
    using ne flag dbl IH by (subst simd_or_while.simps) (simp add: nxt)
qed

lemma simd_or_overflow:
  assumes "valid_range a first n" and "4294967292 \<le> n"
    and "\<forall>p. first \<le> p \<and> p < first + 2147483644 \<longrightarrow> \<not> pred (a ! nat p)"
  shows "simd_or False a first n pred = None"
proof -
  have "simd_or_while a pred (first + n) (first + 4 - 4) 4 = None"
    by (rule simd_or_while_overflow[where j = 29])
       (use assms in \<open>auto simp: valid_range_def\<close>)
  then show ?thesis using assms(2) by (simp add: simd_or_def)
qed

section \<open>Facts about the first-match loops\<close>

lemma first_hit_unique: "first_hit P lo hi r \<Longrightarrow> first_hit P lo hi r' \<Longrightarrow> r = r'"
  unfolding first_hit_def by (metis linorder_neqE_linordered_idom order_le_less)

lemma first_hit_here: "lo < hi \<Longrightarrow> P lo \<Longrightarrow> first_hit P lo hi lo"
  by (auto simp: first_hit_def)

lemma first_hit_empty: "first_hit P hi hi hi"
  by (auto simp: first_hit_def)

lemma first_hit_skip:
  assumes "lo \<le> mid" and "mid \<le> hi" and "\<forall>j. lo \<le> j \<and> j < mid \<longrightarrow> \<not> P j"
    and "first_hit P mid hi r"
  shows "first_hit P lo hi r"
  using assms unfolding first_hit_def by (meson leI order_trans)

lemma first_hit_within:
  assumes "mid \<le> hi" and "first_hit P lo mid r" and "r < mid"
  shows "first_hit P lo hi r"
  using assms unfolding first_hit_def by auto

lemma first_hit_none: "first_hit P lo hi r \<Longrightarrow> r = hi \<longleftrightarrow> (\<forall>j. lo \<le> j \<and> j < hi \<longrightarrow> \<not> P j)"
  unfolding first_hit_def by (metis order_le_less order_less_irrefl)

lemma first_hit_shift: "first_hit (\<lambda>i. P (d + i)) lo hi k \<Longrightarrow> first_hit P (d + lo) (d + hi) (d + k)"
  unfolding first_hit_def
proof (intro conjI allI impI)
  assume h: "lo \<le> k \<and> k \<le> hi \<and> (\<forall>j. lo \<le> j \<and> j < k \<longrightarrow> \<not> P (d + j)) \<and> (k < hi \<longrightarrow> P (d + k))"
  show "d + lo \<le> d + k" "d + k \<le> d + hi" using h by auto
  show "P (d + k)" if "d + k < d + hi" using h that by auto
  fix j assume "d + lo \<le> j \<and> j < d + k"
  then have "lo \<le> j - d \<and> j - d < k" by auto
  with h have "\<not> P (d + (j - d))" by blast
  then show "\<not> P j" by simp
qed

lemma first_hit_unshift: "first_hit P (d + lo) (d + hi) r \<Longrightarrow> first_hit (\<lambda>i. P (d + i)) lo hi (r - d)"
  unfolding first_hit_def by auto

lemma first_hit_cong:
  assumes "\<forall>j. lo \<le> j \<and> j < hi \<longrightarrow> P j = Q j" and "first_hit P lo hi r"
  shows "first_hit Q lo hi r"
proof -
  have r: "lo \<le> r" "r \<le> hi" "\<forall>j. lo \<le> j \<and> j < r \<longrightarrow> \<not> P j" "r < hi \<longrightarrow> P r"
    using assms(2) by (simp_all add: first_hit_def)
  have "\<not> Q j" if "lo \<le> j \<and> j < r" for j
  proof -
    have "lo \<le> j \<and> j < hi" using that r(2) by simp
    then have "P j = Q j" using assms(1) by blast
    then show ?thesis using r(3) that by blast
  qed
  moreover have "Q r" if "r < hi"
  proof -
    have "P r = Q r" using assms(1) r(1) that by blast
    then show ?thesis using r(4) that by blast
  qed
  ultimately show ?thesis using r(1,2) by (simp add: first_hit_def)
qed

lemma lane_scan_first:
  "0 \<le> i \<Longrightarrow> i \<le> 8 \<Longrightarrow> first_hit (\<lambda>k. lane ! nat k \<noteq> 0) i 8 (lane_scan lane i)"
proof (induction lane i rule: lane_scan.induct)
  case (1 lane i)
  show ?case
  proof (cases "i < 8")
    case True
    show ?thesis
    proof (cases "lane ! nat i \<noteq> 0")
      case l: True
      then show ?thesis using True by (subst lane_scan.simps) (simp add: first_hit_here)
    next
      case l: False
      have "first_hit (\<lambda>k. lane ! nat k \<noteq> 0) (i + 1) 8 (lane_scan lane (i + 1))"
        using "1.IH"[OF True l] "1.prems" True by simp
      then have "first_hit (\<lambda>k. lane ! nat k \<noteq> 0) i 8 (lane_scan lane (i + 1))"
        by (rule first_hit_skip[rotated 3]) (use True l in \<open>auto simp: order_le_less\<close>)
      then show ?thesis using True l by (subst lane_scan.simps) simp
    qed
  next
    case False
    with "1.prems" have "i = 8" by simp
    then show ?thesis by (subst lane_scan.simps) (simp add: first_hit_empty)
  qed
qed

lemma lane_fill:
  assumes body: "\<And>j lane found. 0 \<le> j \<Longrightarrow> j < m \<Longrightarrow>
                   body j (lane, found) = Some (lane[nat j := T j], found OR (T j :: int))"
    and len: "length lane = 8" and m: "0 \<le> m" "m \<le> 8"
  shows "\<exists>lane' found'. for_loop 0 m body (lane, 0) = Some (lane', found')
           \<and> (found' \<noteq> 0 \<longleftrightarrow> (\<exists>k. 0 \<le> k \<and> k < m \<and> T k \<noteq> 0))
           \<and> length lane' = 8
           \<and> (\<forall>k. 0 \<le> k \<and> k < m \<longrightarrow> lane' ! nat k = T k)
           \<and> (\<forall>k. m \<le> k \<and> k < 8 \<longrightarrow> lane' ! nat k = lane ! nat k)"
proof -
  let ?I = "\<lambda>j (s :: int list \<times> int). length (fst s) = 8
              \<and> (snd s \<noteq> 0 \<longleftrightarrow> (\<exists>k. 0 \<le> k \<and> k < j \<and> T k \<noteq> 0))
              \<and> (\<forall>k. 0 \<le> k \<and> k < j \<longrightarrow> fst s ! nat k = T k)
              \<and> (\<forall>k. j \<le> k \<and> k < 8 \<longrightarrow> fst s ! nat k = lane ! nat k)"
  have "\<exists>s'. for_loop 0 m body (lane, 0) = Some s' \<and> ?I m s'"
  proof (rule for_loop_rule[where I = ?I])
    show "?I 0 (lane, 0)" using len by auto
    show "0 \<le> m" by fact
    fix j t assume j: "0 \<le> j" "j < m" and t: "?I j t"
    obtain l f where lf: "t = (l, f)" by (cases t)
    have b: "body j t = Some (l[nat j := T j], f OR T j)" using body[OF j] lf by simp
    have ex: "(\<exists>k. 0 \<le> k \<and> k < j + 1 \<and> T k \<noteq> 0)
              \<longleftrightarrow> (\<exists>k. 0 \<le> k \<and> k < j \<and> T k \<noteq> 0) \<or> T j \<noteq> 0"
      using j(1) by (metis add1_zle_eq order_le_less zle_add1_eq_le order_refl)
    have f: "f OR T j \<noteq> 0 \<longleftrightarrow> f \<noteq> 0 \<or> T j \<noteq> 0" by (simp add: or_eq_0_iff)
    have nth: "\<And>k. 0 \<le> k \<Longrightarrow> k < 8 \<Longrightarrow> l[nat j := T j] ! nat k = (if k = j then T j else l ! nat k)"
      using t lf j m by (auto simp: nth_list_update)
    have "?I (j + 1) (l[nat j := T j], f OR T j)"
      using t lf j m ex nth f by auto
    then show "\<exists>t'. body j t = Some t' \<and> ?I (j + 1) t'" using b by blast
  qed
  then obtain s' where s': "for_loop 0 m body (lane, 0) = Some s'" "?I m s'" by blast
  obtain l f where "s' = (l, f)" by (cases s')
  with s' show ?thesis by auto
qed

lemma simd_first_rest_hit:
  assumes "0 \<le> first" and "first \<le> last'" and "last' \<le> int (length a)"
  shows "\<exists>r. simd_first_rest a pred last' first = Some r
             \<and> first_hit (\<lambda>p. pred (a ! nat p)) first last' r"
  using assms
proof (induction a pred last' first rule: simd_first_rest.induct)
  case (1 a pred last' first)
  show ?case
  proof (cases "last' = first")
    case True
    then show ?thesis by (subst simd_first_rest.simps) (simp add: first_hit_empty)
  next
    case False
    have r: "rd a first = Some (a ! nat first)" using "1.prems" False by (simp add: rd_def)
    show ?thesis
    proof (cases "pred (a ! nat first)")
      case p: True
      then show ?thesis using False r "1.prems"
        by (subst simd_first_rest.simps) (simp add: first_hit_here)
    next
      case p: False
      have b: "0 \<le> first + 1" "first + 1 \<le> last'" using "1.prems" False by linarith+
      from "1.IH"[OF False r p this "1.prems"(3)]
      obtain r' where r': "simd_first_rest a pred last' (first + 1) = Some r'"
        "first_hit (\<lambda>p. pred (a ! nat p)) (first + 1) last' r'" by blast
      have "\<forall>j. first \<le> j \<and> j < first + 1 \<longrightarrow> \<not> pred (a ! nat j)"
        using p by (auto simp: order_le_less)
      then have "first_hit (\<lambda>p. pred (a ! nat p)) first last' r'"
        using first_hit_skip[OF _ b(2) _ r'(2), of first] by simp
      then show ?thesis using False r p r'(1) by (subst simd_first_rest.simps) simp
    qed
  qed
qed

lemma simd_first_while_hit:
  assumes "faithful cv"
    and "0 \<le> first" and "first \<le> last'" and "last' \<le> int (length a)" and "length lane = 8"
  shows "\<exists>r. simd_first_while cv a pred last' lane first = Some r
             \<and> first_hit (\<lambda>p. truth cv (pred (a ! nat p))) first last' r"
  using assms
proof (induction cv a pred last' lane first rule: simd_first_while.induct)
  case (1 cv a pred last' lane first)
  let ?P = "\<lambda>p. truth cv (pred (a ! nat p))"
  let ?T = "\<lambda>k. narrow cv (pred (a ! nat (first + k)))"
  have TP: "?T k \<noteq> 0 \<longleftrightarrow> ?P (first + k)" for k
    using "1.prems"(1) by (simp add: faithful_def)
  show ?case
  proof (cases "last' - first \<ge> 8")
    case False
    then show ?thesis
      using simd_first_rest_hit[OF "1.prems"(2-4), of "\<lambda>x. truth cv (pred x)"]
      by (subst simd_first_while.simps) simp
  next
    case True
    let ?body = "\<lambda>i (lane, found). do { x \<leftarrow> rd a (first + i);
                                         let t = narrow cv (pred x);
                                         Some (lane[nat i := t], found OR t) }"
    have "\<exists>lane' found'. for_loop 0 8 ?body (lane, 0) = Some (lane', found')
           \<and> (found' \<noteq> 0 \<longleftrightarrow> (\<exists>k. 0 \<le> k \<and> k < 8 \<and> ?T k \<noteq> 0))
           \<and> length lane' = 8
           \<and> (\<forall>k. 0 \<le> k \<and> k < 8 \<longrightarrow> lane' ! nat k = ?T k)
           \<and> (\<forall>k. 8 \<le> k \<and> k < 8 \<longrightarrow> lane' ! nat k = lane ! nat k)"
    proof (rule lane_fill)
      fix j :: int and lane found assume "0 \<le> j" "j < 8"
      then have "rd a (first + j) = Some (a ! nat (first + j))"
        using "1.prems" True by (simp add: rd_def)
      then show "?body j (lane, found) = Some (lane[nat j := ?T j], found OR ?T j)"
        by (simp add: Let_def)
    qed (use "1.prems" in auto)
    then obtain lane' found' where fill: "for_loop 0 8 ?body (lane, 0) = Some (lane', found')"
      and fnd: "found' \<noteq> 0 \<longleftrightarrow> (\<exists>k. 0 \<le> k \<and> k < 8 \<and> ?T k \<noteq> 0)"
      and len: "length lane' = 8"
      and lanes: "\<forall>k. 0 \<le> k \<and> k < 8 \<longrightarrow> lane' ! nat k = ?T k" by blast
    show ?thesis
    proof (cases "found' \<noteq> 0")
      case found: True
      let ?i = "lane_scan lane' 0"
      have scan: "first_hit (\<lambda>k. lane' ! nat k \<noteq> 0) 0 8 ?i" by (rule lane_scan_first) auto
      have "\<forall>k. 0 \<le> k \<and> k < 8 \<longrightarrow> (lane' ! nat k \<noteq> 0) = ?P (first + k)"
      proof (intro allI impI)
        fix k :: int assume "0 \<le> k \<and> k < 8"
        then have "lane' ! nat k = ?T k" using lanes by blast
        then show "(lane' ! nat k \<noteq> 0) = ?P (first + k)" using TP[of k] by simp
      qed
      then have "first_hit (\<lambda>k. ?P (first + k)) 0 8 ?i" using scan by (rule first_hit_cong)
      then have h: "first_hit ?P (first + 0) (first + 8) (first + ?i)" by (rule first_hit_shift)
      have "\<exists>k. 0 \<le> k \<and> k < 8 \<and> lane' ! nat k \<noteq> 0" using found fnd lanes by auto
      then have "?i \<noteq> 8" using first_hit_none[OF scan] by blast
      then have "first + ?i < first + 8" using scan by (auto simp: first_hit_def)
      then have "first_hit ?P first last' (first + ?i)"
        using first_hit_within[OF _ h] True by simp
      then show ?thesis using True fill found by (subst simd_first_while.simps) simp
    next
      case nf: False
      have none: "\<not> (\<exists>k. 0 \<le> k \<and> k < 8 \<and> ?P (first + k))" using nf fnd TP by blast
      have "0 \<le> first + 8" "first + 8 \<le> last'" using "1.prems" True by linarith+
      from "1.IH"[OF True fill refl nf "1.prems"(1) this "1.prems"(4) len]
      obtain r where r: "simd_first_while cv a pred last' lane' (first + 8) = Some r"
        "first_hit ?P (first + 8) last' r" by blast
      have "first_hit ?P first last' r"
      proof (rule first_hit_skip[OF _ _ _ r(2)])
        show "\<forall>j. first \<le> j \<and> j < first + 8 \<longrightarrow> \<not> ?P j"
        proof (intro allI impI)
          fix j assume "first \<le> j \<and> j < first + 8"
          then have "0 \<le> j - first \<and> j - first < 8" by auto
          with none have "\<not> ?P (first + (j - first))" by blast
          then show "\<not> ?P j" by simp
        qed
      qed (use True in auto)
      then show ?thesis using True fill nf r(1) by (subst simd_first_while.simps) simp
    qed
  qed
qed

lemma simd_first_earlyexit_hit:
  assumes "valid_range a first n" and "0 \<le> i" and "i \<le> n"
  shows "\<exists>k. simd_first_earlyexit a first n pred i = Some (first + k)
             \<and> first_hit (\<lambda>j. pred (a ! nat (first + j))) i n k"
  using assms
proof (induction a first n pred i rule: simd_first_earlyexit.induct)
  case (1 a first n pred i)
  let ?P = "\<lambda>j. pred (a ! nat (first + j))"
  show ?case
  proof (cases "i < n")
    case False
    with "1.prems" have "i = n" by simp
    then show ?thesis by (subst simd_first_earlyexit.simps) (simp add: first_hit_empty)
  next
    case True
    have r: "rd a (first + i) = Some (a ! nat (first + i))"
      using rd_range[OF "1.prems"(1,2) True] .
    show ?thesis
    proof (cases "?P i")
      case p: True
      then show ?thesis using True r
        by (subst simd_first_earlyexit.simps) (simp add: first_hit_here)
    next
      case p: False
      have b: "0 \<le> i + 1" "i + 1 \<le> n" using "1.prems" True by linarith+
      from "1.IH"[OF True r p "1.prems"(1) b]
      obtain k where k: "simd_first_earlyexit a first n pred (i + 1) = Some (first + k)"
        "first_hit ?P (i + 1) n k" by blast
      have "\<forall>j. i \<le> j \<and> j < i + 1 \<longrightarrow> \<not> ?P j" using p by (auto simp: order_le_less)
      then have "first_hit ?P i n k" using first_hit_skip[OF _ b(2) _ k(2), of i] by simp
      then show ?thesis using True r p k(1) by (subst simd_first_earlyexit.simps) simp
    qed
  qed
qed

lemma simd_first_hit:
  assumes "valid_range a first n" and "ee \<or> faithful cv"
  shows "\<exists>k. simd_first cv ee a first n pred = Some (first + k)
             \<and> first_hit (\<lambda>j. truth cv (pred (a ! nat (first + j)))) 0 n k"
proof (cases ee)
  case True
  then show ?thesis
    using simd_first_earlyexit_hit[OF assms(1), of 0 "\<lambda>x. truth cv (pred x)"] assms(1)
    by (simp add: simd_first_def valid_range_def)
next
  case False
  then have f: "faithful cv" using assms(2) by simp
  let ?P = "\<lambda>p. truth cv (pred (a ! nat p))"
  have "\<exists>r. simd_first_while cv a pred (first + n) (replicate 8 0) first = Some r
             \<and> first_hit ?P first (first + n) r"
    by (rule simd_first_while_hit[OF f]) (use assms(1) in \<open>auto simp: valid_range_def\<close>)
  then obtain r where r: "simd_first_while cv a pred (first + n) (replicate 8 0) first = Some r"
    "first_hit ?P first (first + n) r" by blast
  have "first_hit (\<lambda>j. ?P (first + j)) 0 n (r - first)"
    using first_hit_unshift[of ?P first 0 n r] r(2) by simp
  then show ?thesis using False r(1) by (auto simp: simd_first_def intro!: exI[of _ "r - first"])
qed

lemma simd_first2_rest_hit:
  assumes "0 \<le> first1" and "first1 \<le> last1" and "last1 \<le> int (length a1)"
    and "0 \<le> first2" and "first2 + (last1 - first1) \<le> int (length a2)"
  shows "\<exists>r. simd_first2_rest a1 a2 pred last1 first1 first2 = Some r
             \<and> first_hit (\<lambda>p. pred (a1 ! nat p) (a2 ! nat (p + (first2 - first1)))) first1 last1 r"
  using assms
proof (induction a1 a2 pred last1 first1 first2 rule: simd_first2_rest.induct)
  case (1 a1 a2 pred last1 first1 first2)
  let ?P = "\<lambda>p. pred (a1 ! nat p) (a2 ! nat (p + (first2 - first1)))"
  show ?case
  proof (cases "last1 = first1")
    case True
    then show ?thesis by (subst simd_first2_rest.simps) (simp add: first_hit_empty)
  next
    case False
    have r1: "rd a1 first1 = Some (a1 ! nat first1)" using "1.prems" False by (simp add: rd_def)
    have r2: "rd a2 first2 = Some (a2 ! nat first2)" using "1.prems" False by (simp add: rd_def)
    show ?thesis
    proof (cases "pred (a1 ! nat first1) (a2 ! nat first2)")
      case p: True
      then have "first_hit ?P first1 last1 first1"
        using first_hit_here[of first1 last1 ?P] "1.prems" False by simp
      then show ?thesis using False r1 r2 p by (subst simd_first2_rest.simps) simp
    next
      case p: False
      have b: "0 \<le> first1 + 1" "first1 + 1 \<le> last1" "0 \<le> first2 + 1"
        "first2 + 1 + (last1 - (first1 + 1)) \<le> int (length a2)"
        using "1.prems" False by linarith+
      from "1.IH"[OF False r1 r2 p b(1,2) "1.prems"(3) b(3,4)]
      obtain r' where r': "simd_first2_rest a1 a2 pred last1 (first1 + 1) (first2 + 1) = Some r'"
        "first_hit ?P (first1 + 1) last1 r'" by auto
      have "\<forall>j. first1 \<le> j \<and> j < first1 + 1 \<longrightarrow> \<not> ?P j"
        using p by (auto simp: order_le_less)
      then have "first_hit ?P first1 last1 r'"
        using first_hit_skip[OF _ b(2) _ r'(2), of first1] by simp
      then show ?thesis using False r1 r2 p r'(1) by (subst simd_first2_rest.simps) simp
    qed
  qed
qed

lemma simd_first2_while_hit:
  assumes "faithful cv"
    and "0 \<le> first1" and "first1 \<le> last1" and "last1 \<le> int (length a1)"
    and "0 \<le> first2" and "first2 + (last1 - first1) \<le> int (length a2)" and "length lane = 8"
  shows "\<exists>r. simd_first2_while cv a1 a2 pred last1 lane first1 first2 = Some r
             \<and> first_hit (\<lambda>p. truth cv (pred (a1 ! nat p) (a2 ! nat (p + (first2 - first1)))))
                  first1 last1 r"
  using assms
proof (induction cv a1 a2 pred last1 lane first1 first2 rule: simd_first2_while.induct)
  case (1 cv a1 a2 pred last1 lane first1 first2)
  let ?P = "\<lambda>p. truth cv (pred (a1 ! nat p) (a2 ! nat (p + (first2 - first1))))"
  let ?Q = "\<lambda>k. truth cv (pred (a1 ! nat (first1 + k)) (a2 ! nat (first2 + k)))"
  let ?T = "\<lambda>k. narrow cv (pred (a1 ! nat (first1 + k)) (a2 ! nat (first2 + k)))"
  have PQ: "\<And>k. ?P (first1 + k) = ?Q k" by (simp add: add.commute)
  have TQ: "?T k \<noteq> 0 \<longleftrightarrow> ?Q k" for k
    using "1.prems"(1) by (simp add: faithful_def)
  show ?case
  proof (cases "last1 - first1 \<ge> 8")
    case False
    then show ?thesis
      using simd_first2_rest_hit[OF "1.prems"(2-6), of "\<lambda>x y. truth cv (pred x y)"]
      by (subst simd_first2_while.simps) simp
  next
    case True
    let ?body = "\<lambda>i (lane, found). do { x \<leftarrow> rd a1 (first1 + i);
                                         y \<leftarrow> rd a2 (first2 + i);
                                         let t = narrow cv (pred x y);
                                         Some (lane[nat i := t], found OR t) }"
    have "\<exists>lane' found'. for_loop 0 8 ?body (lane, 0) = Some (lane', found')
           \<and> (found' \<noteq> 0 \<longleftrightarrow> (\<exists>k. 0 \<le> k \<and> k < 8 \<and> ?T k \<noteq> 0))
           \<and> length lane' = 8
           \<and> (\<forall>k. 0 \<le> k \<and> k < 8 \<longrightarrow> lane' ! nat k = ?T k)
           \<and> (\<forall>k. 8 \<le> k \<and> k < 8 \<longrightarrow> lane' ! nat k = lane ! nat k)"
    proof (rule lane_fill)
      fix j :: int and lane found assume j: "0 \<le> j" "j < 8"
      then have "rd a1 (first1 + j) = Some (a1 ! nat (first1 + j))"
        using "1.prems" True by (simp add: rd_def)
      moreover have "rd a2 (first2 + j) = Some (a2 ! nat (first2 + j))"
        using "1.prems" True j by (simp add: rd_def)
      ultimately show "?body j (lane, found) = Some (lane[nat j := ?T j], found OR ?T j)"
        by (simp add: Let_def)
    qed (use "1.prems" in auto)
    then obtain lane' found' where fill: "for_loop 0 8 ?body (lane, 0) = Some (lane', found')"
      and fnd: "found' \<noteq> 0 \<longleftrightarrow> (\<exists>k. 0 \<le> k \<and> k < 8 \<and> ?T k \<noteq> 0)"
      and len: "length lane' = 8"
      and lanes: "\<forall>k. 0 \<le> k \<and> k < 8 \<longrightarrow> lane' ! nat k = ?T k" by blast
    show ?thesis
    proof (cases "found' \<noteq> 0")
      case found: True
      let ?i = "lane_scan lane' 0"
      have scan: "first_hit (\<lambda>k. lane' ! nat k \<noteq> 0) 0 8 ?i" by (rule lane_scan_first) auto
      have "\<forall>k. 0 \<le> k \<and> k < 8 \<longrightarrow> (lane' ! nat k \<noteq> 0) = ?Q k"
      proof (intro allI impI)
        fix k :: int assume "0 \<le> k \<and> k < 8"
        then have "lane' ! nat k = ?T k" using lanes by blast
        then show "(lane' ! nat k \<noteq> 0) = ?Q k" using TQ[of k] by simp
      qed
      then have "first_hit ?Q 0 8 ?i" using scan by (rule first_hit_cong)
      then have "first_hit (\<lambda>k. ?P (first1 + k)) 0 8 ?i" unfolding PQ .
      then have h: "first_hit ?P (first1 + 0) (first1 + 8) (first1 + ?i)" by (rule first_hit_shift)
      have "\<exists>k. 0 \<le> k \<and> k < 8 \<and> lane' ! nat k \<noteq> 0" using found fnd lanes by auto
      then have "?i \<noteq> 8" using first_hit_none[OF scan] by blast
      then have "first1 + ?i < first1 + 8" using scan by (auto simp: first_hit_def)
      then have "first_hit ?P first1 last1 (first1 + ?i)"
        using first_hit_within[OF _ h] True by simp
      then show ?thesis using True fill found by (subst simd_first2_while.simps) simp
    next
      case nf: False
      have none: "\<not> (\<exists>k. 0 \<le> k \<and> k < 8 \<and> ?Q k)" using nf fnd TQ by blast
      have b: "0 \<le> first1 + 8" "first1 + 8 \<le> last1" "0 \<le> first2 + 8"
        "first2 + 8 + (last1 - (first1 + 8)) \<le> int (length a2)"
        using "1.prems" True by linarith+
      from "1.IH"[OF True fill refl nf "1.prems"(1) b(1,2) "1.prems"(4) b(3,4) len]
      obtain r where r: "simd_first2_while cv a1 a2 pred last1 lane' (first1 + 8) (first2 + 8) = Some r"
        "first_hit ?P (first1 + 8) last1 r" by auto
      have "first_hit ?P first1 last1 r"
      proof (rule first_hit_skip[OF _ _ _ r(2)])
        show "\<forall>j. first1 \<le> j \<and> j < first1 + 8 \<longrightarrow> \<not> ?P j"
        proof (intro allI impI)
          fix j assume "first1 \<le> j \<and> j < first1 + 8"
          then have "0 \<le> j - first1 \<and> j - first1 < 8" by auto
          with none have "\<not> ?Q (j - first1)" by blast
          with PQ[of "j - first1"] have "\<not> ?P (first1 + (j - first1))" by blast
          then show "\<not> ?P j" by simp
        qed
      qed (use True in auto)
      then show ?thesis using True fill nf r(1) by (subst simd_first2_while.simps) simp
    qed
  qed
qed

lemma simd_first2_earlyexit_hit:
  assumes "valid_range a1 first1 n" and "valid_range a2 first2 n" and "0 \<le> i" and "i \<le> n"
  shows "\<exists>k. simd_first2_earlyexit a1 first1 n a2 first2 pred i = Some (first1 + k)
             \<and> first_hit (\<lambda>j. pred (a1 ! nat (first1 + j)) (a2 ! nat (first2 + j))) i n k"
  using assms
proof (induction a1 first1 n a2 first2 pred i rule: simd_first2_earlyexit.induct)
  case (1 a1 first1 n a2 first2 pred i)
  let ?P = "\<lambda>j. pred (a1 ! nat (first1 + j)) (a2 ! nat (first2 + j))"
  show ?case
  proof (cases "i < n")
    case False
    with "1.prems" have "i = n" by simp
    then show ?thesis by (subst simd_first2_earlyexit.simps) (simp add: first_hit_empty)
  next
    case True
    have r1: "rd a1 (first1 + i) = Some (a1 ! nat (first1 + i))"
      using rd_range[OF "1.prems"(1,3) True] .
    have r2: "rd a2 (first2 + i) = Some (a2 ! nat (first2 + i))"
      using rd_range[OF "1.prems"(2,3) True] .
    show ?thesis
    proof (cases "?P i")
      case p: True
      then show ?thesis using True r1 r2
        by (subst simd_first2_earlyexit.simps) (simp add: first_hit_here)
    next
      case p: False
      have b: "0 \<le> i + 1" "i + 1 \<le> n" using "1.prems" True by linarith+
      from "1.IH"[OF True r1 r2 p "1.prems"(1,2) b]
      obtain k where k: "simd_first2_earlyexit a1 first1 n a2 first2 pred (i + 1) = Some (first1 + k)"
        "first_hit ?P (i + 1) n k" by blast
      have "\<forall>j. i \<le> j \<and> j < i + 1 \<longrightarrow> \<not> ?P j" using p by (auto simp: order_le_less)
      then have "first_hit ?P i n k" using first_hit_skip[OF _ b(2) _ k(2), of i] by simp
      then show ?thesis using True r1 r2 p k(1) by (subst simd_first2_earlyexit.simps) simp
    qed
  qed
qed

lemma simd_first2_hit:
  assumes "valid_range a1 first1 n" and "valid_range a2 first2 n" and "ee \<or> faithful cv"
  shows "\<exists>k. simd_first2 cv ee a1 first1 n a2 first2 pred = Some (first1 + k)
             \<and> first_hit (\<lambda>j. truth cv (pred (a1 ! nat (first1 + j)) (a2 ! nat (first2 + j)))) 0 n k"
proof (cases ee)
  case True
  then show ?thesis
    using simd_first2_earlyexit_hit[OF assms(1,2), of 0 "\<lambda>x y. truth cv (pred x y)"] assms(1)
    by (simp add: simd_first2_def valid_range_def)
next
  case False
  then have f: "faithful cv" using assms(3) by simp
  let ?P = "\<lambda>p. truth cv (pred (a1 ! nat p) (a2 ! nat (p + (first2 - first1))))"
  have "\<exists>r. simd_first2_while cv a1 a2 pred (first1 + n) (replicate 8 0) first1 first2 = Some r
             \<and> first_hit ?P first1 (first1 + n) r"
    by (rule simd_first2_while_hit[OF f]) (use assms(1,2) in \<open>auto simp: valid_range_def\<close>)
  then obtain r where r:
    "simd_first2_while cv a1 a2 pred (first1 + n) (replicate 8 0) first1 first2 = Some r"
    "first_hit ?P first1 (first1 + n) r" by blast
  have eq: "\<And>j. first1 + j + (first2 - first1) = first2 + j" by simp
  have "first_hit (\<lambda>j. ?P (first1 + j)) 0 n (r - first1)"
    using first_hit_unshift[of ?P first1 0 n r] r(2) by simp
  then have "first_hit (\<lambda>j. truth cv (pred (a1 ! nat (first1 + j)) (a2 ! nat (first2 + j)))) 0 n
               (r - first1)"
    by (simp only: eq)
  then show ?thesis using False r(1) by (auto simp: simd_first2_def intro!: exI[of _ "r - first1"])
qed

lemma faithful_bool_conv: "faithful bool_conv"
  by (simp add: faithful_def bool_conv_def)

section \<open>Existence search and counting\<close>

text \<open>
  Below the overflow of the inner counter the two kernels agree: for every valid range of
  fewer than \<open>2^32 - 4\<close> elements, and for every valid range when the early-exit loop is
  used, \<open>simd_or\<close> returns true if and only if \<open>simd_count\<close> returns a value greater than 0,
  which is the case if and only if some element satisfies the predicate.
\<close>

lemma simd_or_iff_count_below_overflow:
  assumes "valid_range a first n" and "earlyexit_present \<or> n < 4294967292"
  shows "\<exists>c. simd_count a first n pred = Some c
           \<and> simd_or earlyexit_present a first n pred = Some (0 < c)
           \<and> (0 < c \<longleftrightarrow> (\<exists>x\<in>set (slice a first n). pred x))"
proof -
  have "(0 < int (length (filter pred (slice a first n)))) \<longleftrightarrow> (\<exists>x\<in>set (slice a first n). pred x)"
    by (simp add: filter_empty_conv)
  then show ?thesis
    using simd_count_slice[OF assms(1), of pred] simd_or_range[OF assms, of pred]
    by simp
qed

lemma simd_or_iff_count_example:
  "simd_count [1, 2, 3, 4, 5, 6, 7, 8, 9, 10 :: int] 0 10 (\<lambda>x. x = 9) = Some 1
   \<and> simd_or False [1, 2, 3, 4, 5, 6, 7, 8, 9, 10 :: int] 0 10 (\<lambda>x. x = 9) = Some True"
  by code_simp

text \<open>
  Claim C4. For every range and predicate, \<open>simd_or\<close> returns true if and only if
  \<open>simd_count\<close> returns a value greater than 0, also under the block-doubling strategy.
  The block-doubling loop counts its inner loop with \<^verbatim>\<open>int i\<close> against the
  \<^verbatim>\<open>DifferenceType\<close> block size. On a range of \<open>2^32\<close> elements none of which satisfies
  the predicate the block size doubles to \<open>2^31\<close>, the counter overflows and the call is
  undefined, while \<open>simd_count\<close> returns 0 and the early-exit loop returns false.
\<close>

theorem simd_or_counter_overflow:
  "simd_or False (replicate 4294967296 (0 :: int)) 0 4294967296 (\<lambda>x. x \<noteq> 0) = None
   \<and> simd_count (replicate 4294967296 (0 :: int)) 0 4294967296 (\<lambda>x. x \<noteq> 0) = Some 0
   \<and> simd_or True (replicate 4294967296 (0 :: int)) 0 4294967296 (\<lambda>x. x \<noteq> 0) = Some False"
proof -
  let ?a = "replicate 4294967296 (0 :: int)"
  have v: "valid_range ?a 0 4294967296" by (simp add: valid_range_def)
  have z: "\<forall>p. 0 \<le> p \<and> p < 0 + 2147483644 \<longrightarrow> \<not> ?a ! nat p \<noteq> 0"
  proof (intro allI impI)
    fix p :: int assume "0 \<le> p \<and> p < 0 + 2147483644"
    then have "nat p < 4294967296" by linarith
    then show "\<not> ?a ! nat p \<noteq> 0" by simp
  qed
  have sl: "slice ?a 0 4294967296 = ?a" by (simp add: slice_def)
  have 1: "simd_or False ?a 0 4294967296 (\<lambda>x. x \<noteq> 0) = None"
    by (rule simd_or_overflow[OF v _ z]) simp
  have 2: "simd_count ?a 0 4294967296 (\<lambda>x. x \<noteq> 0) = Some 0"
    using simd_count_slice[OF v, of "\<lambda>x. x \<noteq> 0"] by (simp add: sl)
  have 3: "simd_or True ?a 0 4294967296 (\<lambda>x. x \<noteq> 0) = Some False"
    using simd_or_range[OF v, of True "\<lambda>x. x \<noteq> 0"] by (simp add: sl)
  show ?thesis using 1 2 3 by simp
qed

section \<open>First-match search\<close>

text \<open>
  With faithful conversions of the predicate result (a \<^verbatim>\<open>bool\<close> or \<^verbatim>\<open>int\<close> result), and
  with the early-exit loop for any conversions, both first-match kernels return \<open>first + k\<close>
  where \<open>k = n\<close> (the result is \<open>last\<close>) exactly when no element satisfies the predicate;
  otherwise the predicate holds at index \<open>k\<close> and at no earlier index.
\<close>

lemma simd_first_faithful:
  assumes "valid_range a first n" and "valid_range a1 first1 m" and "valid_range a2 first2 m"
    and "earlyexit_present \<or> faithful cv"
  shows "(\<exists>k. simd_first cv earlyexit_present a first n pred = Some (first + k)
            \<and> 0 \<le> k \<and> k \<le> n
            \<and> (k = n \<longleftrightarrow> (\<forall>i. 0 \<le> i \<and> i < n \<longrightarrow> \<not> truth cv (pred (a ! nat (first + i)))))
            \<and> (k < n \<longrightarrow> truth cv (pred (a ! nat (first + k))))
            \<and> (\<forall>j. 0 \<le> j \<and> j < k \<longrightarrow> \<not> truth cv (pred (a ! nat (first + j)))))
       \<and> (\<exists>k. simd_first2 cv earlyexit_present a1 first1 m a2 first2 pred2 = Some (first1 + k)
            \<and> 0 \<le> k \<and> k \<le> m
            \<and> (k = m \<longleftrightarrow> (\<forall>i. 0 \<le> i \<and> i < m
                       \<longrightarrow> \<not> truth cv (pred2 (a1 ! nat (first1 + i)) (a2 ! nat (first2 + i)))))
            \<and> (k < m \<longrightarrow> truth cv (pred2 (a1 ! nat (first1 + k)) (a2 ! nat (first2 + k))))
            \<and> (\<forall>j. 0 \<le> j \<and> j < k
                     \<longrightarrow> \<not> truth cv (pred2 (a1 ! nat (first1 + j)) (a2 ! nat (first2 + j)))))"
proof
  obtain k where k: "simd_first cv earlyexit_present a first n pred = Some (first + k)"
    "first_hit (\<lambda>j. truth cv (pred (a ! nat (first + j)))) 0 n k"
    using simd_first_hit[OF assms(1,4)] by blast
  show "\<exists>k. simd_first cv earlyexit_present a first n pred = Some (first + k)
            \<and> 0 \<le> k \<and> k \<le> n
            \<and> (k = n \<longleftrightarrow> (\<forall>i. 0 \<le> i \<and> i < n \<longrightarrow> \<not> truth cv (pred (a ! nat (first + i)))))
            \<and> (k < n \<longrightarrow> truth cv (pred (a ! nat (first + k))))
            \<and> (\<forall>j. 0 \<le> j \<and> j < k \<longrightarrow> \<not> truth cv (pred (a ! nat (first + j))))"
    using k(1) first_hit_none[OF k(2)] k(2) unfolding first_hit_def by blast
next
  obtain k where k: "simd_first2 cv earlyexit_present a1 first1 m a2 first2 pred2 = Some (first1 + k)"
    "first_hit (\<lambda>j. truth cv (pred2 (a1 ! nat (first1 + j)) (a2 ! nat (first2 + j)))) 0 m k"
    using simd_first2_hit[OF assms(2,3,4)] by blast
  show "\<exists>k. simd_first2 cv earlyexit_present a1 first1 m a2 first2 pred2 = Some (first1 + k)
            \<and> 0 \<le> k \<and> k \<le> m
            \<and> (k = m \<longleftrightarrow> (\<forall>i. 0 \<le> i \<and> i < m
                       \<longrightarrow> \<not> truth cv (pred2 (a1 ! nat (first1 + i)) (a2 ! nat (first2 + i)))))
            \<and> (k < m \<longrightarrow> truth cv (pred2 (a1 ! nat (first1 + k)) (a2 ! nat (first2 + k))))
            \<and> (\<forall>j. 0 \<le> j \<and> j < k
                     \<longrightarrow> \<not> truth cv (pred2 (a1 ! nat (first1 + j)) (a2 ! nat (first2 + j))))"
    using k(1) first_hit_none[OF k(2)] k(2) unfolding first_hit_def by blast
qed

lemma simd_first_faithful_example:
  "simd_first bool_conv False [0, 1, 2, 3, 4, 5, 6, 7, 8, 9, 10, 11 :: int] 1 10 (\<lambda>x. x = 10) = Some 10
   \<and> simd_first bool_conv False [0, 1, 2, 3, 4, 5, 6, 7, 8, 9, 10, 11 :: int] 2 3 (\<lambda>x. x = 10) = Some 5
   \<and> simd_first2 bool_conv False [0, 1, 2, 3, 4, 5, 6, 7, 8, 9, 10, 11 :: int] 1 10
        [0, 1, 2, 3, 4, 5, 6, 7, 8, 9, 10, 11 :: int] 2 (\<lambda>x y. x + y = 17) = Some 8"
  by code_simp

text \<open>
  Claim C1. For every range and every predicate, first-match returns \<open>last\<close> exactly when
  no element satisfies the predicate, and otherwise the index of the first element that
  does. The block loop stores the predicate result in \<^verbatim>\<open>int t\<close>, so a result that is true
  as a condition and 0 after the conversion to \<^verbatim>\<open>int\<close> is lost. On the eight unsigned
  64-bit elements \<open>0, 0, 0, 2^40, 0, 0, 0, 0\<close> with the predicate \<open>x & 2^40\<close> the block scan
  returns \<open>last\<close> although element 3 satisfies the predicate; the early-exit loop and the
  scalar remainder (the same range cut to 7 elements) return index 3, and \<open>simd_or\<close>
  returns true. The two-stream kernel loses the element in the same way.
\<close>

theorem simd_first_narrowing:
  "simd_first uint64_conv False [0, 0, 0, 1099511627776, 0, 0, 0, 0] 0 8 (\<lambda>x. x AND 1099511627776)
     = Some 8
   \<and> truth uint64_conv ([0, 0, 0, 1099511627776, 0, 0, 0, 0] ! 3 AND 1099511627776)
   \<and> simd_first uint64_conv True [0, 0, 0, 1099511627776, 0, 0, 0, 0] 0 8 (\<lambda>x. x AND 1099511627776)
     = Some 3
   \<and> simd_first uint64_conv False [0, 0, 0, 1099511627776, 0, 0, 0, 0] 0 7 (\<lambda>x. x AND 1099511627776)
     = Some 3
   \<and> simd_or False [0, 0, 0, 1099511627776, 0, 0, 0, 0] 0 8
        (\<lambda>x. truth uint64_conv (x AND 1099511627776)) = Some True
   \<and> simd_first2 uint64_conv False [0, 0, 0, 1099511627776, 0, 0, 0, 0] 0 8
        [1, 1, 1, 1099511627776, 1, 1, 1, 1] 0 (\<lambda>x y. x AND y) = Some 8
   \<and> simd_first2 uint64_conv True [0, 0, 0, 1099511627776, 0, 0, 0, 0] 0 8
        [1, 1, 1, 1099511627776, 1, 1, 1, 1] 0 (\<lambda>x y. x AND y) = Some 3"
  by code_simp

section \<open>Facts about the compaction and mask kernels\<close>

lemma patch_Nil: "patch out result [] = out"
  by (simp add: patch_def)

lemma length_patch:
  "0 \<le> result \<Longrightarrow> result + int (length ys) \<le> int (length out) \<Longrightarrow> length (patch out result ys) = length out"
  by (auto simp: patch_def)

lemma wr_patch:
  assumes "0 \<le> result" and "result + int (length ys) < int (length out)"
  shows "wr (patch out result ys) (result + int (length ys)) x = Some (patch out result (ys @ [x]))"
proof -
  let ?r = "nat result"
  have r: "nat (result + int (length ys)) = ?r + length ys" using assms by (simp add: nat_add_distrib)
  have lt: "?r + length ys < length out" using assms by linarith
  have "(take ?r out @ ys @ drop (?r + length ys) out)[?r + length ys := x]
        = take ?r out @ ys @ (drop (?r + length ys) out)[0 := x]"
    using lt by (simp add: list_update_append)
  also have "(drop (?r + length ys) out)[0 := x] = x # drop (Suc (?r + length ys)) out"
    using lt by (metis Cons_nth_drop_Suc list_update_code(2))
  finally have "(patch out result ys)[?r + length ys := x] = patch out result (ys @ [x])"
    by (simp add: patch_def)
  moreover have "result + int (length ys) < int (length (patch out result ys))"
    using assms by (simp add: length_patch)
  ultimately show ?thesis using assms(1) r by (simp add: wr_def)
qed

lemma patch_nth:
  assumes "0 \<le> result" and "result + int (length ys) \<le> int (length out)" and "k < length ys"
  shows "patch out result ys ! (nat result + k) = ys ! k"
  using assms by (simp add: patch_def nth_append)

lemma rd_patch:
  assumes "0 \<le> result" and "result + int (length ys) \<le> int (length out)"
    and "0 \<le> k" and "k < int (length ys)"
  shows "rd (patch out result ys) (result + k) = Some (ys ! nat k)"
proof -
  have "nat (result + k) = nat result + nat k" using assms by (simp add: nat_add_distrib)
  then show ?thesis
    using assms patch_nth[OF assms(1,2), of "nat k"] by (simp add: rd_def length_patch)
qed

lemma slice_patch:
  assumes "0 \<le> result" and "result + int (length ys) \<le> int (length out)"
  shows "slice (patch out result ys) result (int (length ys)) = ys"
  using assms by (simp add: slice_def patch_def)

lemma valid_range_patch:
  "0 \<le> result \<Longrightarrow> result + int (length ys) \<le> int (length out) \<Longrightarrow>
   valid_range (patch out result ys) result (int (length ys))"
  by (simp add: valid_range_def length_patch)

lemma length_filter_take_le: "int (length (filter P (take (nat j) xs))) \<le> j" if "0 \<le> j"
proof -
  have "length (filter P (take (nat j) xs)) \<le> nat j"
    by (rule order_trans[OF length_filter_le]) simp
  then show ?thesis using that by linarith
qed

lemma simd_copy_if_patch:
  assumes "valid_range a first n" and "valid_range out result n"
  shows "simd_copy_if a first n out result pred
         = Some (result + int (length (filter pred (slice a first n))),
                 patch out result (filter pred (slice a first n)))"
proof -
  let ?xs = "slice a first n"
  let ?F = "\<lambda>j. filter pred (take (nat j) ?xs)"
  let ?I = "\<lambda>j (s :: int \<times> 'a list). fst s = int (length (?F j)) \<and> snd s = patch out result (?F j)"
  let ?body = "\<lambda>i (cnt, out). do { x \<leftarrow> rd a (first + i);
                                   if pred x
                                   then do { out' \<leftarrow> wr out (result + cnt) x; Some (cnt + 1, out') }
                                   else Some (cnt, out) }"
  have n: "0 \<le> n" "length ?xs = nat n" "0 \<le> result" "result + n \<le> int (length out)"
    using assms length_slice by (auto simp: valid_range_def)
  have "\<exists>s'. for_loop 0 n ?body (0, out) = Some s' \<and> ?I n s'"
  proof (rule for_loop_rule[where I = ?I])
    show "?I 0 (0, out)" by (simp add: patch_Nil)
    show "0 \<le> n" by fact
    fix j t assume j: "0 \<le> j" "j < n" and t: "?I j t"
    obtain cnt ob where co: "t = (cnt, ob)" by (cases t)
    have r: "rd a (first + j) = Some (?xs ! nat j)" using rd_slice[OF assms(1) j] .
    have step: "?F (j + 1) = ?F j @ (if pred (?xs ! nat j) then [?xs ! nat j] else [])"
      using j n by (simp add: take_nat_step)
    have "result + int (length (?F j)) < int (length out)"
      using length_filter_take_le[OF j(1), of pred ?xs] j n by linarith
    then have w: "wr (patch out result (?F j)) (result + int (length (?F j))) (?xs ! nat j)
                  = Some (patch out result (?F j @ [?xs ! nat j]))"
      by (rule wr_patch[OF n(3)])
    show "\<exists>t'. ?body j t = Some t' \<and> ?I (j + 1) t'"
      using t co r w step by (cases "pred (?xs ! nat j)") auto
  qed
  then obtain s' where s': "for_loop 0 n ?body (0, out) = Some s'" "?I n s'" by blast
  obtain cnt ob where "s' = (cnt, ob)" by (cases s')
  then show ?thesis using s' n by (simp add: simd_copy_if_def)
qed


lemma mask_select_snoc:
  "length xs = length ms \<Longrightarrow>
   mask_select (xs @ [x]) (ms @ [b]) = mask_select xs ms @ (if b then [x] else [])"
  by (simp add: mask_select_def)

lemma length_mask_select: "length (mask_select xs ms) \<le> length xs"
proof -
  have "length (filter snd (zip xs ms)) \<le> length (zip xs ms)" by (rule length_filter_le)
  then show ?thesis by (simp add: mask_select_def)
qed

lemma mask_select_map: "mask_select xs (map pred xs) = filter pred xs"
  by (induction xs) (auto simp: mask_select_def)

lemma mask_select_filter:
  assumes "length ms = length xs" and "\<forall>i < length xs. ms ! i = pred (xs ! i)"
  shows "mask_select xs ms = filter pred xs"
proof -
  have "ms = map pred xs" using assms by (intro nth_equalityI) auto
  then show ?thesis by (simp add: mask_select_map)
qed

lemma simd_copy_by_mask_patch:
  assumes "valid_range a first n" and "valid_range out result n" and "valid_range m mask' n"
  shows "simd_copy_by_mask a first n out result m mask'
         = Some ((), patch out result (mask_select (slice a first n) (slice m mask' n)))"
proof -
  let ?xs = "slice a first n" and ?ms = "slice m mask' n"
  let ?F = "\<lambda>j. mask_select (take (nat j) ?xs) (take (nat j) ?ms)"
  let ?I = "\<lambda>j (s :: int \<times> 'a list). fst s = int (length (?F j)) \<and> snd s = patch out result (?F j)"
  let ?body = "\<lambda>i (cnt, out). do { b \<leftarrow> rd m (mask' + i);
                                   if b
                                   then do { x \<leftarrow> rd a (first + i);
                                             out' \<leftarrow> wr out (result + cnt) x;
                                             Some (cnt + 1, out') }
                                   else Some (cnt, out) }"
  have n: "0 \<le> n" "length ?xs = nat n" "length ?ms = nat n" "0 \<le> result"
    "result + n \<le> int (length out)"
    using assms length_slice by (auto simp: valid_range_def)
  have "\<exists>s'. for_loop 0 n ?body (0, out) = Some s' \<and> ?I n s'"
  proof (rule for_loop_rule[where I = ?I])
    show "?I 0 (0, out)" by (simp add: patch_Nil mask_select_def)
    show "0 \<le> n" by fact
    fix j t assume j: "0 \<le> j" "j < n" and t: "?I j t"
    obtain cnt ob where co: "t = (cnt, ob)" by (cases t)
    have r: "rd a (first + j) = Some (?xs ! nat j)" using rd_slice[OF assms(1) j] .
    have rm: "rd m (mask' + j) = Some (?ms ! nat j)" using rd_slice[OF assms(3) j] .
    have step: "?F (j + 1) = ?F j @ (if ?ms ! nat j then [?xs ! nat j] else [])"
      using j n by (simp add: take_nat_step mask_select_snoc)
    have "length (?F j) \<le> nat j"
      by (rule order_trans[OF length_mask_select]) simp
    then have "result + int (length (?F j)) < int (length out)" using j n by linarith
    then have w: "wr (patch out result (?F j)) (result + int (length (?F j))) (?xs ! nat j)
                  = Some (patch out result (?F j @ [?xs ! nat j]))"
      by (rule wr_patch[OF n(4)])
    show "\<exists>t'. ?body j t = Some t' \<and> ?I (j + 1) t'"
      using t co r rm w step by (cases "?ms ! nat j") auto
  qed
  then obtain s' where s': "for_loop 0 n ?body (0, out) = Some s'" "?I n s'" by blast
  obtain cnt ob where "s' = (cnt, ob)" by (cases s')
  then show ?thesis using s' n by (simp add: simd_copy_by_mask_def)
qed

lemma simd_calc_mask_1_patch:
  assumes "valid_range a first n" and "valid_range m mask' n"
  shows "simd_calc_mask_1 a first n m mask' pred
         = Some (int (length (filter pred (slice a first n))),
                 patch m mask' (map pred (slice a first n)))"
proof -
  let ?xs = "slice a first n"
  let ?M = "\<lambda>j. map pred (take (nat j) ?xs)"
  let ?I = "\<lambda>j (s :: int \<times> bool list).
              fst s = int (length (filter pred (take (nat j) ?xs))) \<and> snd s = patch m mask' (?M j)"
  let ?body = "\<lambda>i (count, m). do { x \<leftarrow> rd a (first + i);
                            m' \<leftarrow> wr m (mask' + i) (pred x);
                            b \<leftarrow> rd m' (mask' + i);
                            Some (count + (if b then 1 else 0), m') }"
  have n: "0 \<le> n" "length ?xs = nat n" "0 \<le> mask'" "mask' + n \<le> int (length m)"
    using assms length_slice by (auto simp: valid_range_def)
  have "\<exists>s'. for_loop 0 n ?body (0, m) = Some s' \<and> ?I n s'"
  proof (rule for_loop_rule[where I = ?I])
    show "?I 0 (0, m)" by (simp add: patch_Nil)
    show "0 \<le> n" by fact
    fix j t assume j: "0 \<le> j" "j < n" and t: "?I j t"
    obtain cnt mb where co: "t = (cnt, mb)" by (cases t)
    let ?x = "?xs ! nat j"
    have r: "rd a (first + j) = Some ?x" using rd_slice[OF assms(1) j] .
    have len: "int (length (?M j)) = j" using j n by simp
    have step: "?M (j + 1) = ?M j @ [pred ?x]"
      "filter pred (take (nat (j + 1)) ?xs) = filter pred (take (nat j) ?xs) @ (if pred ?x then [?x] else [])"
      using j n by (simp_all add: take_nat_step)
    have "mask' + int (length (?M j)) < int (length m)" using j n len by linarith
    then have "wr (patch m mask' (?M j)) (mask' + int (length (?M j))) (pred ?x)
                  = Some (patch m mask' (?M j @ [pred ?x]))"
      by (rule wr_patch[OF n(3)])
    then have w: "wr (patch m mask' (?M j)) (mask' + j) (pred ?x) = Some (patch m mask' (?M (j + 1)))"
      using len step by simp
    have "rd (patch m mask' (?M (j + 1))) (mask' + j) = Some (?M (j + 1) ! nat j)"
      by (rule rd_patch[OF n(3)]) (use j n in auto)
    then have rb: "rd (patch m mask' (?M (j + 1))) (mask' + j) = Some (pred ?x)"
      using step(1) len by (metis length_map nat_int nth_append_length)
    show "\<exists>t'. ?body j t = Some t' \<and> ?I (j + 1) t'"
      using t co r w rb step(2) by (cases "pred ?x") auto
  qed
  then obtain s' where s': "for_loop 0 n ?body (0, m) = Some s'" "?I n s'" by blast
  obtain cnt mb where "s' = (cnt, mb)" by (cases s')
  then show ?thesis using s' n by (simp add: simd_calc_mask_1_def)
qed

lemma unique_after_snoc:
  "unique_after pred p (zs @ [y])
   = unique_after pred p zs @ (if \<not> pred y (last (p # zs)) then [y] else [])"
  by (induction zs arbitrary: p) auto

lemma unique_list_snoc:
  "zs \<noteq> [] \<Longrightarrow>
   unique_list pred (zs @ [y]) = unique_list pred zs @ (if \<not> pred y (last zs) then [y] else [])"
  by (cases zs) (auto simp: unique_after_snoc)

lemma length_unique_after: "length (unique_after pred p zs) \<le> length zs"
  by (induction zs arbitrary: p) (auto simp: le_SucI)

lemma length_unique_list: "length (unique_list pred zs) \<le> length zs"
  by (cases zs) (auto simp: length_unique_after)

lemma simd_unique_copy_patch:
  assumes "valid_range a first n" and "valid_range out result n"
  shows "simd_unique_copy a first n out result pred
         = Some (result + int (length (unique_list pred (slice a first n))),
                 patch out result (unique_list pred (slice a first n)))"
proof (cases "n = 0")
  case True
  then show ?thesis by (simp add: simd_unique_copy_def slice_def patch_Nil)
next
  case False
  let ?xs = "slice a first n"
  let ?U = "\<lambda>j. unique_list pred (take (nat j) ?xs)"
  let ?I = "\<lambda>j (s :: int \<times> 'a list). fst s = int (length (?U j)) \<and> snd s = patch out result (?U j)"
  let ?body = "\<lambda>i (cnt, out). do { x \<leftarrow> rd a (first + i);
                                      y \<leftarrow> rd a (first + (i - 1));
                                      if \<not> pred x y
                                      then do { out' \<leftarrow> wr out (result + cnt) x; Some (cnt + 1, out') }
                                      else Some (cnt, out) }"
  have n: "0 < n" "length ?xs = nat n" "0 \<le> result" "result + n \<le> int (length out)"
    using assms length_slice False by (auto simp: valid_range_def)
  have r0: "rd a (first + 0) = Some (?xs ! 0)" using rd_slice[OF assms(1), of 0] n by simp
  have U1: "?U 1 = [?xs ! 0]" using n by (cases ?xs) auto
  have w0: "wr out (result + 0) (?xs ! 0) = Some (patch out result [?xs ! 0])"
    using wr_patch[OF n(3), of "[]" out "?xs ! 0"] n by (simp add: patch_Nil)
  have "\<exists>s'. for_loop 1 n ?body (1, patch out result [?xs ! 0]) = Some s' \<and> ?I n s'"
  proof (rule for_loop_rule[where I = ?I])
    show "?I 1 (1, patch out result [?xs ! 0])" using U1 by simp
    show "1 \<le> n" using n by simp
    fix j t assume j: "1 \<le> j" "j < n" and t: "?I j t"
    obtain cnt ob where co: "t = (cnt, ob)" by (cases t)
    let ?x = "?xs ! nat j" and ?y = "?xs ! nat (j - 1)"
    have r: "rd a (first + j) = Some ?x" using rd_slice[OF assms(1), of j] j by simp
    have ry: "rd a (first + (j - 1)) = Some ?y" using rd_slice[OF assms(1), of "j - 1"] j by simp
    have ne: "take (nat j) ?xs \<noteq> []" using j n by auto
    have "last (take (nat j) ?xs) = ?xs ! (nat j - 1)"
      using j n ne by (simp add: last_conv_nth min_def)
    then have la: "last (take (nat j) ?xs) = ?y" using j by (simp add: nat_diff_distrib)
    have step: "?U (j + 1) = ?U j @ (if \<not> pred ?x ?y then [?x] else [])"
      using j n la unique_list_snoc[OF ne, of pred ?x] by (simp add: take_nat_step)
    have "length (?U j) \<le> nat j"
      by (rule order_trans[OF length_unique_list]) simp
    then have "result + int (length (?U j)) < int (length out)" using j n by linarith
    then have w: "wr (patch out result (?U j)) (result + int (length (?U j))) ?x
                  = Some (patch out result (?U j @ [?x]))"
      by (rule wr_patch[OF n(3)])
    show "\<exists>t'. ?body j t = Some t' \<and> ?I (j + 1) t'"
      using t co r ry w step by (cases "pred ?x ?y") auto
  qed
  then obtain s' where s': "for_loop 1 n ?body (1, patch out result [?xs ! 0]) = Some s'" "?I n s'"
    by blast
  obtain cnt ob where "s' = (cnt, ob)" by (cases s')
  then show ?thesis using s' n False r0 w0 by (simp add: simd_unique_copy_def)
qed


lemma take_patch:
  "0 \<le> result \<Longrightarrow> result + int (length ys) \<le> int (length out) \<Longrightarrow>
   take (nat result) (patch out result ys) = take (nat result) out"
  by (auto simp: patch_def)

lemma drop_patch:
  assumes "0 \<le> result" and "result + int (length ys) \<le> int (length out)"
  shows "drop (nat (result + int (length ys))) (patch out result ys)
         = drop (nat (result + int (length ys))) out"
proof -
  have "nat (result + int (length ys)) = nat result + length ys"
    using assms by (simp add: nat_add_distrib)
  then show ?thesis using assms by (simp add: patch_def)
qed

lemma simd_calc_mask_1_mask:
  assumes "valid_range a first n" and "valid_range m mask' n"
  shows "\<exists>c m'. simd_calc_mask_1 a first n m mask' pred = Some (c, m')
           \<and> valid_range m' mask' n
           \<and> (\<forall>i. 0 \<le> i \<and> i < n \<longrightarrow> m' ! nat (mask' + i) = pred (a ! nat (first + i)))"
proof -
  let ?xs = "slice a first n"
  let ?m' = "patch m mask' (map pred ?xs)"
  have b: "0 \<le> mask'" "mask' + int (length (map pred ?xs)) \<le> int (length m)"
    using assms length_slice[OF assms(1)] by (auto simp: valid_range_def)
  have v: "valid_range ?m' mask' n"
    using valid_range_patch[OF b] assms length_slice[OF assms(1)] by (simp add: valid_range_def)
  have "\<forall>i. 0 \<le> i \<and> i < n \<longrightarrow> ?m' ! nat (mask' + i) = pred (a ! nat (first + i))"
  proof (intro allI impI)
    fix i assume i: "0 \<le> i \<and> i < n"
    then have k: "nat i < length (map pred ?xs)" using length_slice[OF assms(1)] by auto
    have "nat (mask' + i) = nat mask' + nat i" using b i by (simp add: nat_add_distrib)
    then show "?m' ! nat (mask' + i) = pred (a ! nat (first + i))"
      using patch_nth[OF b k] k slice_nth[OF assms(1), of i] i by simp
  qed
  then show ?thesis using simd_calc_mask_1_patch[OF assms, of pred] v by blast
qed


lemma unique_after_idem:
  assumes "equivp pred" and "pred p q"
  shows "unique_after pred p (unique_after pred q ys) = unique_after pred q ys"
  using assms(2)
proof (induction ys arbitrary: p q)
  case Nil
  then show ?case by simp
next
  case (Cons y ys)
  show ?case
  proof (cases "pred y q")
    case True
    have "pred q y" using equivp_symp[OF assms(1) True] .
    then have "pred p y" using equivp_transp[OF assms(1) Cons.prems] by blast
    then show ?thesis using True Cons.IH by simp
  next
    case False
    have "\<not> pred y p"
    proof
      assume "pred y p"
      then have "pred y q" using equivp_transp[OF assms(1) _ Cons.prems] by blast
      with False show False by simp
    qed
    moreover have "pred y y" using equivp_reflp[OF assms(1)] .
    ultimately show ?thesis using False Cons.IH by simp
  qed
qed

lemma unique_list_idem:
  assumes "equivp pred"
  shows "unique_list pred (unique_list pred xs) = unique_list pred xs"
proof (cases xs)
  case Nil
  then show ?thesis by simp
next
  case (Cons x xs')
  have "pred x x" using equivp_reflp[OF assms] .
  then show ?thesis using Cons unique_after_idem[OF assms] by simp
qed

lemma simd_calc_mask_2_patch:
  assumes "valid_range a (first - 1) (n + 1)" and "valid_range m mask' n"
  shows "simd_calc_mask_2 a first n m mask' pred
         = Some (int (length (filter (\<lambda>i. \<not> pred (a ! nat (first + int i)) (a ! nat (first + (int i - 1)))) [0..<nat n])),
                 patch m mask' (map (\<lambda>i. \<not> pred (a ! nat (first + int i)) (a ! nat (first + (int i - 1)))) [0..<nat n]))"
proof -
  let ?f = "\<lambda>i. \<not> pred (a ! nat (first + int i)) (a ! nat (first + (int i - 1)))"
  let ?M = "\<lambda>j. map ?f [0..<nat j]"
  let ?I = "\<lambda>j (s :: int \<times> bool list).
              fst s = int (length (filter ?f [0..<nat j])) \<and> snd s = patch m mask' (?M j)"
  let ?body = "\<lambda>i (count, m). do { x \<leftarrow> rd a (first + i);
                            y \<leftarrow> rd a (first + (i - 1));
                            m' \<leftarrow> wr m (mask' + i) (\<not> pred x y);
                            b \<leftarrow> rd m' (mask' + i);
                            Some (count + (if b then 1 else 0), m') }"
  have n: "0 \<le> n" "1 \<le> first" "first + n \<le> int (length a)" "0 \<le> mask'"
    "mask' + n \<le> int (length m)"
    using assms by (auto simp: valid_range_def)
  have "\<exists>s'. for_loop 0 n ?body (0, m) = Some s' \<and> ?I n s'"
  proof (rule for_loop_rule[where I = ?I])
    show "?I 0 (0, m)" by (simp add: patch_Nil)
    show "0 \<le> n" by fact
    fix j t assume j: "0 \<le> j" "j < n" and t: "?I j t"
    obtain cnt mb where co: "t = (cnt, mb)" by (cases t)
    let ?x = "a ! nat (first + j)" and ?y = "a ! nat (first + (j - 1))"
    have r: "rd a (first + j) = Some ?x" using j n by (simp add: rd_def)
    have ry: "rd a (first + (j - 1)) = Some ?y" using j n by (simp add: rd_def)
    have len: "int (length (?M j)) = j" using j by simp
    have fj: "?f (nat j) = (\<not> pred ?x ?y)" using j by simp
    have upt: "[0..<nat (j + 1)] = [0..<nat j] @ [nat j]" using j by (simp add: nat_add_distrib)
    have step: "?M (j + 1) = ?M j @ [\<not> pred ?x ?y]"
      "filter ?f [0..<nat (j + 1)] = filter ?f [0..<nat j] @ (if \<not> pred ?x ?y then [nat j] else [])"
      using fj by (simp_all only: upt map_append filter_append list.map filter.simps if_True if_False split: if_splits)
    have "mask' + int (length (?M j)) < int (length m)" using j n len by linarith
    then have "wr (patch m mask' (?M j)) (mask' + int (length (?M j))) (\<not> pred ?x ?y)
                  = Some (patch m mask' (?M j @ [\<not> pred ?x ?y]))"
      by (rule wr_patch[OF n(4)])
    then have w: "wr (patch m mask' (?M j)) (mask' + j) (\<not> pred ?x ?y)
                  = Some (patch m mask' (?M (j + 1)))"
      using len step(1) by simp
    have "rd (patch m mask' (?M (j + 1))) (mask' + j) = Some (?M (j + 1) ! nat j)"
      by (rule rd_patch[OF n(4)]) (use j n in auto)
    moreover have "?M (j + 1) ! nat j = (\<not> pred ?x ?y)"
    proof -
      have l: "length (?M j) = nat j" by simp
      have "(?M j @ [\<not> pred ?x ?y]) ! length (?M j) = (\<not> pred ?x ?y)"
        by (rule nth_append_length)
      then have "(?M j @ [\<not> pred ?x ?y]) ! nat j = (\<not> pred ?x ?y)"
        by (simp only: l)
      then show ?thesis by (simp only: step(1))
    qed
    ultimately have rb: "rd (patch m mask' (?M (j + 1))) (mask' + j) = Some (\<not> pred ?x ?y)"
      by simp
    have "?I (j + 1) (cnt + (if \<not> pred ?x ?y then 1 else 0), patch m mask' (?M (j + 1)))"
      using t co step(2) by (cases "pred ?x ?y") simp_all
    moreover have "?body j t = Some (cnt + (if \<not> pred ?x ?y then 1 else 0), patch m mask' (?M (j + 1)))"
      using t co r ry w rb by simp
    ultimately show "\<exists>t'. ?body j t = Some t' \<and> ?I (j + 1) t'" by blast
  qed
  then obtain s' where s': "for_loop 0 n ?body (0, m) = Some s'" "?I n s'" by blast
  obtain cnt mb where "s' = (cnt, mb)" by (cases s')
  then show ?thesis using s' n by (simp add: simd_calc_mask_2_def)
qed

lemma simd_calc_mask_2_before_first:
  assumes "0 < n" and "rd a (first - 1) = None"
  shows "simd_calc_mask_2 a first n m mask' pred = None"
  using assms by (simp add: simd_calc_mask_2_def for_loop.simps[of 0] split: Option.bind_split)

section \<open>Copy-if\<close>

text \<open>
  Claim C2. For every valid range of size \<open>n \<ge> 0\<close> and unary predicate, \<open>simd_copy_if\<close>
  writes exactly the elements of the input that satisfy the predicate, in their original
  order, into the consecutive output positions from \<open>result\<close> on and leaves the rest of the
  output buffer as it was; the number written, \<open>c\<close>, is the value of \<open>simd_count\<close>, and the
  returned iterator is \<open>result + c\<close>. With \<open>n = 0\<close> nothing is written.
\<close>

theorem simd_copy_if_correct:
  assumes "valid_range a first n" and "valid_range out result n"
  shows "\<exists>c out'. simd_copy_if a first n out result pred = Some (result + c, out')
           \<and> simd_count a first n pred = Some c
           \<and> slice out' result c = filter pred (slice a first n)
           \<and> length out' = length out
           \<and> take (nat result) out' = take (nat result) out
           \<and> drop (nat (result + c)) out' = drop (nat (result + c)) out
           \<and> 0 \<le> c \<and> c \<le> n
           \<and> (n = 0 \<longrightarrow> out' = out)"
proof -
  let ?ys = "filter pred (slice a first n)"
  have "length ?ys \<le> length (slice a first n)" by simp
  then have b: "0 \<le> result" "result + int (length ?ys) \<le> int (length out)"
    using assms length_slice[OF assms(1)] by (auto simp: valid_range_def)
  have le: "int (length ?ys) \<le> n"
    using \<open>length ?ys \<le> length (slice a first n)\<close> assms(1) length_slice[OF assms(1)]
    unfolding valid_range_def by linarith
  have "n = 0 \<Longrightarrow> ?ys = []" by (simp add: slice_def)
  then show ?thesis
    using simd_copy_if_patch[OF assms, of pred] simd_count_slice[OF assms(1), of pred]
      slice_patch[OF b] length_patch[OF b] take_patch[OF b] drop_patch[OF b] le
    by (auto simp: patch_Nil)
qed

theorem simd_copy_if_correct_witness:
  "valid_range [1, 2, 3, 4, 5, 6, 7, 8, 9, 10 :: int] 1 8
   \<and> valid_range (replicate 10 (0 :: int)) 2 8
   \<and> simd_copy_if [1, 2, 3, 4, 5, 6, 7, 8, 9, 10 :: int] 1 8 (replicate 10 0) 2 even
       = Some (6, [0, 0, 2, 4, 6, 8, 0, 0, 0, 0])
   \<and> simd_count [1, 2, 3, 4, 5, 6, 7, 8, 9, 10 :: int] 1 8 even = Some 4
   \<and> simd_copy_if [1, 2, 3 :: int] 1 0 [7, 7] 0 even = Some (0, [7, 7])"
proof -
  let ?a = "[1, 2, 3, 4, 5, 6, 7, 8, 9, 10 :: int]"
  have v1: "valid_range ?a 1 8" and v2: "valid_range (replicate 10 (0 :: int)) 2 8"
    by (simp_all add: valid_range_def)
  have e1: "simd_copy_if ?a 1 8 (replicate 10 0) 2 even = Some (6, [0, 0, 2, 4, 6, 8, 0, 0, 0, 0])"
    by code_simp
  have v3: "valid_range [1, 2, 3 :: int] 1 0" and v4: "valid_range [7, 7 :: int] 0 0"
    by (simp_all add: valid_range_def)
  from simd_copy_if_correct[OF v3 v4, of even]
  have e2: "simd_copy_if [1, 2, 3 :: int] 1 0 [7, 7] 0 even = Some (0, [7, 7])"
    by auto
  from simd_copy_if_correct[OF v1 v2, of even] e1
  have "simd_count ?a 1 8 even = Some 4" by auto
  then show ?thesis using v1 v2 e1 e2 by simp
qed

section \<open>Unique-copy is idempotent\<close>

text \<open>
  Claim C7. For every valid range and every equivalence predicate, running
  \<open>simd_unique_copy\<close> on its own output (the \<open>c\<close> elements it wrote) with the same predicate
  writes the same \<open>c\<close> elements again: same length, same elements.
\<close>

theorem simd_unique_copy_idempotent:
  assumes "equivp pred"
    and "valid_range a first n" and "valid_range out result n" and "valid_range out2 result2 n"
  shows "\<exists>c out' out2'. simd_unique_copy a first n out result pred = Some (result + c, out')
           \<and> simd_unique_copy out' result c out2 result2 pred = Some (result2 + c, out2')
           \<and> slice out2' result2 c = slice out' result c
           \<and> slice out' result c = unique_list pred (slice a first n)"
proof -
  let ?xs = "slice a first n"
  let ?ys = "unique_list pred ?xs"
  let ?c = "int (length ?ys)"
  let ?out' = "patch out result ?ys"
  have "0 \<le> n" using assms(2) by (simp add: valid_range_def)
  then have le: "?c \<le> n"
    using length_unique_list[of pred ?xs] length_slice[OF assms(2)] by linarith
  have b: "0 \<le> result" "result + ?c \<le> int (length out)"
    using assms(3) le by (auto simp: valid_range_def)
  have b2: "0 \<le> result2" "result2 + ?c \<le> int (length out2)"
    using assms(4) le by (auto simp: valid_range_def)
  have run1: "simd_unique_copy a first n out result pred = Some (result + ?c, ?out')"
    by (rule simd_unique_copy_patch[OF assms(2,3)])
  have v1: "valid_range ?out' result ?c" by (rule valid_range_patch[OF b])
  have v2: "valid_range out2 result2 ?c" using b2 by (simp add: valid_range_def)
  have sl: "slice ?out' result ?c = ?ys" by (rule slice_patch[OF b])
  have "simd_unique_copy ?out' result ?c out2 result2 pred
        = Some (result2 + int (length (unique_list pred ?ys)), patch out2 result2 (unique_list pred ?ys))"
    using simd_unique_copy_patch[OF v1 v2, of pred] sl by simp
  then have run2: "simd_unique_copy ?out' result ?c out2 result2 pred
        = Some (result2 + ?c, patch out2 result2 ?ys)"
    by (simp add: unique_list_idem[OF assms(1)])
  have "slice (patch out2 result2 ?ys) result2 ?c = ?ys" by (rule slice_patch[OF b2])
  then show ?thesis using run1 run2 sl by simp
qed

theorem simd_unique_copy_idempotent_witness:
  "equivp ((=) :: int \<Rightarrow> int \<Rightarrow> bool)
   \<and> valid_range [1, 2, 2, 3, 3, 3, 4 :: int] 0 7
   \<and> valid_range (replicate 7 (0 :: int)) 0 7
   \<and> simd_unique_copy [1, 2, 2, 3, 3, 3, 4 :: int] 0 7 (replicate 7 0) 0 (=)
       = Some (4, [1, 2, 3, 4, 0, 0, 0])
   \<and> simd_unique_copy [1, 2, 3, 4, 0, 0, 0 :: int] 0 4 (replicate 7 0) 0 (=)
       = Some (4, [1, 2, 3, 4, 0, 0, 0])"
proof -
  let ?a = "[1, 2, 2, 3, 3, 3, 4 :: int]"
  have eq: "equivp ((=) :: int \<Rightarrow> int \<Rightarrow> bool)" by (rule identity_equivp)
  have v1: "valid_range ?a 0 7" and v2: "valid_range (replicate 7 (0 :: int)) 0 7"
    by (simp_all add: valid_range_def)
  have e1: "simd_unique_copy ?a 0 7 (replicate 7 0) 0 (=) = Some (4, [1, 2, 3, 4, 0, 0, 0])"
    by code_simp
  from simd_unique_copy_idempotent[OF eq v1 v2 v2] e1
  obtain out2' where
    "simd_unique_copy [1, 2, 3, 4, 0, 0, 0 :: int] 0 4 (replicate 7 0) 0 (=) = Some (4, out2')"
    "slice out2' 0 4 = slice [1, 2, 3, 4, 0, 0, 0 :: int] 0 4"
    by auto
  moreover have "simd_unique_copy [1, 2, 3, 4, 0, 0, 0 :: int] 0 4 (replicate 7 0) 0 (=)
                 = Some (4, [1, 2, 3, 4, 0, 0, 0])"
    by code_simp
  ultimately show ?thesis using eq v1 v2 e1 by simp
qed

section \<open>Copy-by-mask agrees with copy-if\<close>

text \<open>
  Claim C5. For every valid range, predicate and mask with \<open>mask[i] = p (element[i])\<close> for
  all \<open>i < n\<close>, \<open>simd_copy_by_mask\<close> leaves the output buffer exactly as \<open>simd_copy_if\<close> does
  on the same input: the same elements at the same positions. In particular this holds for
  the mask that \<open>simd_calc_mask_1\<close> computes, whose returned count is the number of elements
  written.
\<close>

theorem simd_copy_by_mask_agrees:
  assumes "valid_range a first n" and "valid_range out result n" and "valid_range m mask' n"
  shows "\<exists>c out'. simd_copy_if a first n out result pred = Some (result + c, out')
           \<and> slice out' result c = filter pred (slice a first n)
           \<and> ((\<forall>i. 0 \<le> i \<and> i < n \<longrightarrow> m ! nat (mask' + i) = pred (a ! nat (first + i)))
                \<longrightarrow> simd_copy_by_mask a first n out result m mask' = Some ((), out'))
           \<and> (\<exists>m1. simd_calc_mask_1 a first n m mask' pred = Some (c, m1)
                  \<and> simd_copy_by_mask a first n out result m1 mask' = Some ((), out'))"
proof -
  let ?xs = "slice a first n"
  let ?out' = "patch out result (filter pred ?xs)"
  let ?c = "int (length (filter pred ?xs))"
  have agree: "simd_copy_by_mask a first n out result mb mask' = Some ((), ?out')"
    if v: "valid_range mb mask' n"
      and h: "\<forall>i. 0 \<le> i \<and> i < n \<longrightarrow> mb ! nat (mask' + i) = pred (a ! nat (first + i))"
    for mb
  proof -
    let ?ms = "slice mb mask' n"
    have len: "length ?ms = length ?xs"
      using length_slice[OF assms(1)] length_slice[OF v] by simp
    have "\<forall>i < length ?xs. ?ms ! i = pred (?xs ! i)"
    proof (intro allI impI)
      fix i assume "i < length ?xs"
      then have i: "0 \<le> int i" "int i < n" using length_slice[OF assms(1)] by auto
      show "?ms ! i = pred (?xs ! i)"
        using slice_nth[OF assms(1) i] slice_nth[OF v i] h i by simp
    qed
    then have "mask_select ?xs ?ms = filter pred ?xs" by (rule mask_select_filter[OF len])
    then show ?thesis using simd_copy_by_mask_patch[OF assms(1,2) v] by simp
  qed
  have "length (filter pred ?xs) \<le> length ?xs" by simp
  then have b: "0 \<le> result" "result + ?c \<le> int (length out)"
    using assms length_slice[OF assms(1)] by (auto simp: valid_range_def)
  have run: "simd_copy_if a first n out result pred = Some (result + ?c, ?out')"
    by (rule simd_copy_if_patch[OF assms(1,2)])
  have sl: "slice ?out' result ?c = filter pred ?xs" by (rule slice_patch[OF b])
  obtain c1 m1 where m1: "simd_calc_mask_1 a first n m mask' pred = Some (c1, m1)"
    "valid_range m1 mask' n"
    "\<forall>i. 0 \<le> i \<and> i < n \<longrightarrow> m1 ! nat (mask' + i) = pred (a ! nat (first + i))"
    using simd_calc_mask_1_mask[OF assms(1,3), of pred] by blast
  have c1: "c1 = ?c" using m1(1) simd_calc_mask_1_patch[OF assms(1,3), of pred] by simp
  show ?thesis
    using run sl agree[OF assms(3)] agree[OF m1(2,3)] m1(1) c1 by blast
qed

theorem simd_copy_by_mask_agrees_witness:
  "valid_range [1, 2, 3, 4, 5, 6 :: int] 1 4
   \<and> valid_range (replicate 6 (0 :: int)) 2 4
   \<and> valid_range [False, True, False, True, False] 1 4
   \<and> simd_copy_if [1, 2, 3, 4, 5, 6 :: int] 1 4 (replicate 6 0) 2 even = Some (4, [0, 0, 2, 4, 0, 0])
   \<and> simd_copy_by_mask [1, 2, 3, 4, 5, 6 :: int] 1 4 (replicate 6 0) 2 [False, True, False, True, False] 1
       = Some ((), [0, 0, 2, 4, 0, 0])"
proof -
  let ?a = "[1, 2, 3, 4, 5, 6 :: int]" and ?m = "[False, True, False, True, False]"
  have v1: "valid_range ?a 1 4" and v2: "valid_range (replicate 6 (0 :: int)) 2 4"
    and v3: "valid_range ?m 1 4"
    by (simp_all add: valid_range_def)
  have h: "\<forall>i. 0 \<le> i \<and> i < 4 \<longrightarrow> ?m ! nat (1 + i) = even (?a ! nat (1 + i))"
  proof (intro allI impI)
    fix i :: int assume "0 \<le> i \<and> i < 4"
    then have "i = 0 \<or> i = 1 \<or> i = 2 \<or> i = 3" by linarith
    then show "?m ! nat (1 + i) = even (?a ! nat (1 + i))" by auto
  qed
  have e1: "simd_copy_if ?a 1 4 (replicate 6 0) 2 even = Some (4, [0, 0, 2, 4, 0, 0])"
    by code_simp
  from simd_copy_by_mask_agrees[OF v1 v2 v3, of even] e1 h
  have "simd_copy_by_mask ?a 1 4 (replicate 6 0) 2 ?m 1 = Some ((), [0, 0, 2, 4, 0, 0])"
    by auto
  then show ?thesis using v1 v2 v3 e1 by simp
qed

section \<open>What the compaction kernels return\<close>

text \<open>
  Claim C6 says that each of the three compaction kernels returns the number of elements it
  wrote. \<open>simd_copy_by_mask\<close> does not: it is declared \<^verbatim>\<open>void\<close>. The two calls below
  write two elements and no element, and return the same value.
\<close>

theorem simd_copy_by_mask_return_counterexample:
  "simd_copy_by_mask [1, 2 :: int] 0 2 [0, 0] 0 [True, True] 0 = Some ((), [1, 2])
   \<and> simd_copy_by_mask [1, 2 :: int] 0 2 [0, 0] 0 [False, False] 0 = Some ((), [0, 0])
   \<and> map_option fst (simd_copy_by_mask [1, 2 :: int] 0 2 [0, 0] 0 [True, True] 0)
     = map_option fst (simd_copy_by_mask [1, 2 :: int] 0 2 [0, 0] 0 [False, False] 0)"
  by code_simp

text \<open>
  Claim C6, amended. \<open>simd_copy_if\<close> and \<open>simd_unique_copy\<close> return \<open>result + c\<close>, one past
  the last position written, where \<open>c\<close> is the number of elements written and
  \<open>0 \<le> c \<le> n\<close>. \<open>simd_copy_by_mask\<close> writes the \<open>c \<le> n\<close> elements whose mask entry is
  true into consecutive positions and returns nothing.
\<close>

theorem simd_compaction_return:
  assumes "valid_range a first n" and "valid_range out result n" and "valid_range m mask' n"
  shows "(\<exists>c. simd_copy_if a first n out result pred
               = Some (result + c, patch out result (filter pred (slice a first n)))
             \<and> c = int (length (filter pred (slice a first n))) \<and> 0 \<le> c \<and> c \<le> n)
       \<and> (\<exists>c. simd_unique_copy a first n out result eq
               = Some (result + c, patch out result (unique_list eq (slice a first n)))
             \<and> c = int (length (unique_list eq (slice a first n))) \<and> 0 \<le> c \<and> c \<le> n)
       \<and> (\<exists>c. simd_copy_by_mask a first n out result m mask'
               = Some ((), patch out result (mask_select (slice a first n) (slice m mask' n)))
             \<and> c = int (length (mask_select (slice a first n) (slice m mask' n)))
             \<and> 0 \<le> c \<and> c \<le> n)"
proof -
  let ?xs = "slice a first n"
  have n: "0 \<le> n" "length ?xs = nat n"
    using assms(1) length_slice[OF assms(1)] by (auto simp: valid_range_def)
  have "length (filter pred ?xs) \<le> length ?xs" by simp
  then have 1: "int (length (filter pred ?xs)) \<le> n" using n by linarith
  have 2: "int (length (unique_list eq ?xs)) \<le> n"
    using length_unique_list[of eq ?xs] n by linarith
  have 3: "int (length (mask_select ?xs (slice m mask' n))) \<le> n"
    using length_mask_select[of ?xs "slice m mask' n"] n by linarith
  show ?thesis
    using simd_copy_if_patch[OF assms(1,2), of pred] simd_unique_copy_patch[OF assms(1,2), of eq]
      simd_copy_by_mask_patch[OF assms] 1 2 3
    by simp
qed

theorem simd_compaction_return_witness:
  "valid_range [1, 2, 2, 3 :: int] 0 4 \<and> valid_range (replicate 4 (0 :: int)) 0 4
   \<and> valid_range [True, False, False, True] 0 4
   \<and> simd_copy_if [1, 2, 2, 3 :: int] 0 4 (replicate 4 0) 0 even = Some (2, [2, 2, 0, 0])
   \<and> simd_unique_copy [1, 2, 2, 3 :: int] 0 4 (replicate 4 0) 0 (=) = Some (3, [1, 2, 3, 0])
   \<and> simd_copy_by_mask [1, 2, 2, 3 :: int] 0 4 (replicate 4 0) 0 [True, False, False, True] 0
       = Some ((), [1, 3, 0, 0])"
proof -
  let ?a = "[1, 2, 2, 3 :: int]" and ?m = "[True, False, False, True]"
  have v1: "valid_range ?a 0 4" and v2: "valid_range (replicate 4 (0 :: int)) 0 4"
    and v3: "valid_range ?m 0 4"
    by (simp_all add: valid_range_def)
  have p: "patch (replicate 4 (0 :: int)) 0 (filter even (slice ?a 0 4)) = [2, 2, 0, 0]"
    "patch (replicate 4 (0 :: int)) 0 (unique_list (=) (slice ?a 0 4)) = [1, 2, 3, 0]"
    "patch (replicate 4 (0 :: int)) 0 (mask_select (slice ?a 0 4) (slice ?m 0 4)) = [1, 3, 0, 0]"
    by (simp_all add: patch_def slice_def mask_select_def eval_nat_numeral)
  have l: "int (length (filter even (slice ?a 0 4))) = 2"
    "int (length (unique_list (=) (slice ?a 0 4))) = 3"
    by (simp_all add: slice_def)
  show ?thesis
    using simd_compaction_return[OF v1 v2 v3, of even "(=)"] v1 v2 v3 p l by auto
qed

section \<open>The pairwise mask kernel\<close>

text \<open>
  Claim C3 says that \<open>simd_calc_mask_2\<close> computes mask entries only for indices \<open>i \<ge> 1\<close>,
  never reads the element before the first element of its range and never writes
  \<open>mask[0]\<close>. The loop starts at \<open>i = 0\<close>: with \<open>n = 1\<close> the call writes \<open>mask[0]\<close>, the value
  written depends on the element before \<open>first\<close>, and the call is undefined when the buffer
  starts at \<open>first\<close>.
\<close>

theorem simd_calc_mask_2_counterexample:
  "simd_calc_mask_2 [4, 5 :: int] 1 1 [False] 0 (=) = Some (1, [True])
   \<and> simd_calc_mask_2 [5, 5 :: int] 1 1 [False] 0 (=) = Some (0, [False])
   \<and> simd_calc_mask_2 [5 :: int] 0 1 [False] 0 (=) = None"
  by code_simp

text \<open>
  Claim C3, amended. For every \<open>n \<ge> 0\<close>, when the range \<open>[first - 1, first + n)\<close> is
  readable and the mask has room for \<open>n\<close> entries, \<open>simd_calc_mask_2\<close> writes
  \<open>mask[i] = \<not> pred (element[i], element[i - 1])\<close> for every index \<open>0 \<le> i < n\<close>, index 0
  included, leaves the rest of the mask buffer unchanged and returns the number of true
  entries; for index 0 it reads the element before \<open>first\<close>. When \<open>n \<ge> 1\<close> and that element
  is not readable the call is undefined: the caller has to pass a range that starts at
  index 1 or later of its data.
\<close>

theorem simd_calc_mask_2_from_index_0:
  "(valid_range a (first - 1) (n + 1) \<and> valid_range m mask' n \<longrightarrow>
      (\<exists>c m'. simd_calc_mask_2 a first n m mask' pred = Some (c, m')
         \<and> length m' = length m
         \<and> (\<forall>i. 0 \<le> i \<and> i < n \<longrightarrow>
               m' ! nat (mask' + i) = (\<not> pred (a ! nat (first + i)) (a ! nat (first + (i - 1)))))
         \<and> c = int (length (filter id (slice m' mask' n)))
         \<and> take (nat mask') m' = take (nat mask') m
         \<and> drop (nat (mask' + n)) m' = drop (nat (mask' + n)) m))
   \<and> (0 < n \<and> rd a (first - 1) = None \<longrightarrow> simd_calc_mask_2 a first n m mask' pred = None)"
proof (intro conjI impI)
  assume "0 < n \<and> rd a (first - 1) = None"
  then show "simd_calc_mask_2 a first n m mask' pred = None"
    using simd_calc_mask_2_before_first by blast
next
  assume v: "valid_range a (first - 1) (n + 1) \<and> valid_range m mask' n"
  let ?f = "\<lambda>i. \<not> pred (a ! nat (first + int i)) (a ! nat (first + (int i - 1)))"
  let ?ms = "map ?f [0..<nat n]"
  let ?m' = "patch m mask' ?ms"
  have n: "0 \<le> n" using v by (simp add: valid_range_def)
  have len: "int (length ?ms) = n" using n by simp
  have b: "0 \<le> mask'" "mask' + int (length ?ms) \<le> int (length m)"
    using v len by (auto simp: valid_range_def)
  have run: "simd_calc_mask_2 a first n m mask' pred
             = Some (int (length (filter ?f [0..<nat n])), ?m')"
    using simd_calc_mask_2_patch v by blast
  have sl: "slice ?m' mask' n = ?ms" using slice_patch[OF b] len by simp
  have cnt: "length (filter id ?ms) = length (filter ?f [0..<nat n])"
    by (simp add: filter_map o_def)
  have nth: "\<forall>i. 0 \<le> i \<and> i < n \<longrightarrow>
               ?m' ! nat (mask' + i) = (\<not> pred (a ! nat (first + i)) (a ! nat (first + (i - 1))))"
  proof (intro allI impI)
    fix i assume i: "0 \<le> i \<and> i < n"
    then have k: "nat i < length ?ms" by simp
    have "nat (mask' + i) = nat mask' + nat i" using b i by (simp add: nat_add_distrib)
    then have "?m' ! nat (mask' + i) = ?ms ! nat i" using patch_nth[OF b k] by simp
    also have "\<dots> = ?f (nat i)" using k by simp
    finally show "?m' ! nat (mask' + i) = (\<not> pred (a ! nat (first + i)) (a ! nat (first + (i - 1))))"
      using i by simp
  qed
  have fr: "take (nat mask') ?m' = take (nat mask') m"
    "drop (nat (mask' + n)) ?m' = drop (nat (mask' + n)) m"
    using take_patch[OF b] drop_patch[OF b] len by simp_all
  show "\<exists>c m'. simd_calc_mask_2 a first n m mask' pred = Some (c, m')
         \<and> length m' = length m
         \<and> (\<forall>i. 0 \<le> i \<and> i < n \<longrightarrow>
               m' ! nat (mask' + i) = (\<not> pred (a ! nat (first + i)) (a ! nat (first + (i - 1)))))
         \<and> c = int (length (filter id (slice m' mask' n)))
         \<and> take (nat mask') m' = take (nat mask') m
         \<and> drop (nat (mask' + n)) m' = drop (nat (mask' + n)) m"
    using run length_patch[OF b] nth sl cnt fr by (intro exI[of _ "int (length (filter ?f [0..<nat n]))"] exI[of _ ?m']) simp
qed

theorem simd_calc_mask_2_from_index_0_witness:
  "valid_range [1, 1, 2, 2, 3 :: int] (1 - 1) (4 + 1) \<and> valid_range [False, False, False, False] 0 4
   \<and> simd_calc_mask_2 [1, 1, 2, 2, 3 :: int] 1 4 [False, False, False, False] 0 (=)
       = Some (2, [False, True, False, True])
   \<and> (0 :: int) < 4 \<and> rd [1, 1, 2, 2 :: int] (0 - 1) = None
   \<and> simd_calc_mask_2 [1, 1, 2, 2 :: int] 0 4 [False, False, False, False] 0 (=) = None"
proof -
  have v: "valid_range [1, 1, 2, 2, 3 :: int] (1 - 1) (4 + 1) \<and> valid_range [False, False, False, False] 0 4"
    by (simp add: valid_range_def)
  have r: "(0 :: int) < 4 \<and> rd [1, 1, 2, 2 :: int] (0 - 1) = None" by (simp add: rd_def)
  have "simd_calc_mask_2 [1, 1, 2, 2, 3 :: int] 1 4 [False, False, False, False] 0 (=)
       = Some (2, [False, True, False, True])" by code_simp
  moreover from v
    simd_calc_mask_2_from_index_0[of "[1, 1, 2, 2, 3 :: int]" 1 4 "[False, False, False, False]" 0 "(=)"]
  have "\<exists>c m'. simd_calc_mask_2 [1, 1, 2, 2, 3 :: int] 1 4 [False, False, False, False] 0 (=)
                = Some (c, m') \<and> length m' = length [False, False, False, False]"
    by blast
  ultimately have e: "simd_calc_mask_2 [1, 1, 2, 2, 3 :: int] 1 4 [False, False, False, False] 0 (=)
       = Some (2, [False, True, False, True])" by simp
  have "simd_calc_mask_2 [1, 1, 2, 2 :: int] 0 4 [False, False, False, False] 0 (=) = None"
    using simd_calc_mask_2_from_index_0[of "[1, 1, 2, 2 :: int]" 0 4 "[False, False, False, False]" 0 "(=)"] r
    by blast
  then show ?thesis using v r e by blast
qed

section \<open>Adjacent-find: existence mode and exact mode\<close>

lemma div8_shift: "(x - 8) div 8 = x div 8 - (1 :: int)"
  by presburger

lemma mod8_shift: "(x - 8) mod 8 = x mod (8 :: int)"
  by presburger

lemma pair_detected_shift:
  "pair_detected cv a pred (first + 8) last' j = pair_detected cv a pred first last' j"
proof -
  have e: "j - (first + 8) = (j - first) - 8" by simp
  show ?thesis unfolding pair_detected_def e div8_shift mod8_shift by (simp add: algebra_simps)
qed

lemma block_start_shift: "block_start (first + 8) last' r = block_start first last' r"
proof -
  have e: "r - (first + 8) = (r - first) - 8" by simp
  show ?thesis unfolding block_start_def e div8_shift by (simp add: algebra_simps)
qed

lemma pair_detected_rest:
  assumes "last' - first < 8" and "first \<le> j"
  shows "pair_detected cv a pred first last' j = truth cv (pred (a ! nat j) (a ! nat (j + 1)))"
proof -
  have "0 \<le> (j - first) div 8" using assms(2) by simp
  then have "\<not> 8 * ((j - first) div 8) + 8 \<le> last' - first" using assms(1) by linarith
  then show ?thesis by (simp add: pair_detected_def)
qed

lemma pair_detected_block:
  assumes "8 \<le> last' - first" and "0 \<le> k" and "k < 7"
  shows "pair_detected cv a pred first last' (first + k)
         = (narrow cv (pred (a ! nat (first + k)) (a ! nat (first + k + 1))) \<noteq> 0)"
proof -
  have "(first + k - first) div 8 = 0" "(first + k - first) mod 8 = k" using assms by simp_all
  then show ?thesis using assms unfolding pair_detected_def by simp
qed

lemma pair_detected_edge:
  "pair_detected cv a pred first last' (first + 7)
   = truth cv (pred (a ! nat (first + 7)) (a ! nat (first + 7 + 1)))"
proof -
  have "(first + 7 - first) mod 8 = 7" by simp
  then show ?thesis unfolding pair_detected_def by simp
qed

lemma pair_detected_faithful:
  "faithful cv \<Longrightarrow>
   pair_detected cv a pred first last' j = truth cv (pred (a ! nat j) (a ! nat (j + 1)))"
  by (simp add: pair_detected_def faithful_def)

lemma block_start_block:
  assumes "8 \<le> last' - first" and "0 \<le> i" and "i < 8"
  shows "block_start first last' (first + i) = first"
proof -
  have "(first + i - first) div 8 = 0" using assms by simp
  then show ?thesis using assms unfolding block_start_def by simp
qed

lemma block_start_rest:
  assumes "last' - first < 8" and "first \<le> r"
  shows "block_start first last' r = r"
proof -
  have "0 \<le> (r - first) div 8" using assms(2) by simp
  then have "\<not> 8 * ((r - first) div 8) + 8 \<le> last' - first" using assms(1) by linarith
  then show ?thesis by (simp add: block_start_def)
qed

lemma block_start_bounds:
  assumes "first \<le> r" and "r \<le> last'"
  shows "first \<le> block_start first last' r" and "block_start first last' r \<le> r"
    and "block_start first last' r = last' \<longleftrightarrow> r = last'"
proof -
  have d: "0 \<le> (r - first) div 8" using assms(1) by simp
  have m: "8 * ((r - first) div 8) \<le> r - first" by presburger
  show "first \<le> block_start first last' r" using d assms by (simp add: block_start_def)
  show "block_start first last' r \<le> r" using m assms by (simp add: block_start_def)
  show "block_start first last' r = last' \<longleftrightarrow> r = last'"
    using m assms by (auto simp: block_start_def)
qed

lemma simd_adjacent_find_rest_hit:
  assumes "0 \<le> first" and "first \<le> last'" and "last' \<le> int (length a)"
  shows "\<exists>r. simd_adjacent_find_rest a pred last' first = Some r
             \<and> first_hit (\<lambda>j. j < last' - 1 \<and> pred (a ! nat j) (a ! nat (j + 1))) first last' r"
  using assms
proof (induction a pred last' first rule: simd_adjacent_find_rest.induct)
  case (1 a pred last' first)
  let ?Q = "\<lambda>j. j < last' - 1 \<and> pred (a ! nat j) (a ! nat (j + 1))"
  show ?case
  proof (cases "last' - first > 1")
    case False
    have "first_hit ?Q first last' last'"
      using False "1.prems" by (auto simp: first_hit_def)
    then show ?thesis using False by (subst simd_adjacent_find_rest.simps) simp
  next
    case True
    have r1: "rd a first = Some (a ! nat first)" using "1.prems" True by (simp add: rd_def)
    have r2: "rd a (first + 1) = Some (a ! nat (first + 1))"
      using "1.prems" True by (simp add: rd_def)
    show ?thesis
    proof (cases "pred (a ! nat first) (a ! nat (first + 1))")
      case p: True
      have "first_hit ?Q first last' first"
        using first_hit_here[of first last' ?Q] True p by simp
      then show ?thesis using True r1 r2 p by (subst simd_adjacent_find_rest.simps) simp
    next
      case p: False
      have b: "0 \<le> first + 1" "first + 1 \<le> last'" using "1.prems" True by linarith+
      from "1.IH"[OF True r1 r2 p b "1.prems"(3)]
      obtain r where r: "simd_adjacent_find_rest a pred last' (first + 1) = Some r"
        "first_hit ?Q (first + 1) last' r" by blast
      have "\<forall>j. first \<le> j \<and> j < first + 1 \<longrightarrow> \<not> ?Q j" using p by (auto simp: order_le_less)
      then have "first_hit ?Q first last' r"
        using first_hit_skip[OF _ b(2) _ r(2), of first] by simp
      then show ?thesis using True r1 r2 p r(1) by (subst simd_adjacent_find_rest.simps) simp
    qed
  qed
qed

lemma simd_adjacent_find_while_unfold:
  assumes "last' - first \<ge> 8"
    and "for_loop 0 (8 - 1)
           (\<lambda>i (lane, found). do { x \<leftarrow> rd a (first + i);
                                   y \<leftarrow> rd a (first + i + 1);
                                   let t = narrow cv (pred x y);
                                   Some (lane[nat i := t], found OR t) })
           (lane, 0) = Some (lane1, found1)"
    and "(if first + 8 < last' then
            do { x \<leftarrow> rd a (first + 7);
                 y \<leftarrow> rd a (first + 7 + 1);
                 Some (if truth cv (pred x y) then (lane1[7 := 1], 1) else (lane1, found1)) }
          else Some (lane1, found1)) = Some (lane2, found2)"
  shows "simd_adjacent_find_while cv a pred or_semantic last' lane first
         = (if found2 \<noteq> 0
            then (if or_semantic then Some first else Some (first + lane_scan lane2 0))
            else simd_adjacent_find_while cv a pred or_semantic last' lane2 (first + 8))"
  using assms by (subst simd_adjacent_find_while.simps) simp

text \<open>
  The block strategy returns the first position whose pair it detects; in the existence
  mode it returns the start of that position's block.
\<close>

lemma simd_adjacent_find_while_hit:
  assumes "0 \<le> first" and "first \<le> last'" and "last' \<le> int (length a)"
    and "length lane = 8" and "lane ! 7 = 0"
  shows "\<exists>k. first_hit (\<lambda>j. j < last' - 1 \<and> pair_detected cv a pred first last' j) first last' k
             \<and> simd_adjacent_find_while cv a pred or_semantic last' lane first
                 = Some (if or_semantic then block_start first last' k else k)"
  using assms
proof (induction cv a pred or_semantic last' lane first rule: simd_adjacent_find_while.induct)
  case (1 cv a pred or_semantic last' lane first)
  let ?Q = "\<lambda>j. j < last' - 1 \<and> pair_detected cv a pred first last' j"
  let ?P = "\<lambda>k. truth cv (pred (a ! nat (first + k)) (a ! nat (first + k + 1)))"
  let ?T = "\<lambda>k. narrow cv (pred (a ! nat (first + k)) (a ! nat (first + k + 1)))"
  show ?case
  proof (cases "last' - first \<ge> 8")
    case False
    let ?R = "\<lambda>j. j < last' - 1 \<and> truth cv (pred (a ! nat j) (a ! nat (j + 1)))"
    obtain r where r: "simd_adjacent_find_rest a (\<lambda>x y. truth cv (pred x y)) last' first = Some r"
      "first_hit ?R first last' r"
      using simd_adjacent_find_rest_hit[OF "1.prems"(1-3), of "\<lambda>x y. truth cv (pred x y)"] by blast
    have "\<forall>j. first \<le> j \<and> j < last' \<longrightarrow> ?R j = ?Q j"
      using pair_detected_rest[of last' first _ cv a pred] False by auto
    then have hit: "first_hit ?Q first last' r" using r(2) by (rule first_hit_cong)
    have "first \<le> r" using r(2) by (simp add: first_hit_def)
    then have bs: "block_start first last' r = r" using block_start_rest[of last' first r] False by simp
    have "simd_adjacent_find_while cv a pred or_semantic last' lane first = Some r"
      using False r(1) by (subst simd_adjacent_find_while.simps) simp
    then have "simd_adjacent_find_while cv a pred or_semantic last' lane first
               = Some (if or_semantic then block_start first last' r else r)"
      using bs by simp
    then show ?thesis using hit by blast
  next
    case True
    let ?body = "\<lambda>i (lane, found). do { x \<leftarrow> rd a (first + i);
                                         y \<leftarrow> rd a (first + i + 1);
                                         let t = narrow cv (pred x y);
                                         Some (lane[nat i := t], found OR t) }"
    have "\<exists>lane' found'. for_loop 0 (8 - 1) ?body (lane, 0) = Some (lane', found')
           \<and> (found' \<noteq> 0 \<longleftrightarrow> (\<exists>k. 0 \<le> k \<and> k < 8 - 1 \<and> ?T k \<noteq> 0))
           \<and> length lane' = 8
           \<and> (\<forall>k. 0 \<le> k \<and> k < 8 - 1 \<longrightarrow> lane' ! nat k = ?T k)
           \<and> (\<forall>k. 8 - 1 \<le> k \<and> k < 8 \<longrightarrow> lane' ! nat k = lane ! nat k)"
    proof (rule lane_fill)
      fix j :: int and lane found assume j: "0 \<le> j" "j < 8 - 1"
      then have "rd a (first + j) = Some (a ! nat (first + j))"
        using "1.prems" True by (simp add: rd_def)
      moreover have "rd a (first + j + 1) = Some (a ! nat (first + j + 1))"
        using "1.prems" True j by (simp add: rd_def)
      ultimately show "?body j (lane, found) = Some (lane[nat j := ?T j], found OR ?T j)"
        by (simp add: Let_def)
    qed (use "1.prems" in auto)
    then obtain lane1 found1 where fill: "for_loop 0 (8 - 1) ?body (lane, 0) = Some (lane1, found1)"
      and fnd1: "found1 \<noteq> 0 \<longleftrightarrow> (\<exists>k. 0 \<le> k \<and> k < 7 \<and> ?T k \<noteq> 0)"
      and len1: "length lane1 = 8"
      and lanes1: "\<forall>k. 0 \<le> k \<and> k < 7 \<longrightarrow> lane1 ! nat k = ?T k"
      and keep: "\<forall>k. 7 \<le> k \<and> k < 8 \<longrightarrow> lane1 ! nat k = lane ! nat k" by auto
    have l7: "lane1 ! 7 = 0" using keep[rule_format, of 7] "1.prems"(5) by simp
    let ?edge = "first + 8 < last' \<and> ?P 7"
    let ?lane2 = "if ?edge then lane1[7 := 1] else lane1"
    let ?found2 = "if ?edge then 1 else found1"
    have r7: "first + 8 < last' \<Longrightarrow> rd a (first + 7) = Some (a ! nat (first + 7))
                \<and> rd a (first + 7 + 1) = Some (a ! nat (first + 7 + 1))"
      using "1.prems" by (simp add: rd_def)
    have edge: "(if first + 8 < last' then
                  do { x \<leftarrow> rd a (first + 7);
                       y \<leftarrow> rd a (first + 7 + 1);
                       Some (if truth cv (pred x y) then (lane1[7 := 1], 1) else (lane1, found1)) }
                else Some (lane1, found1)) = Some (?lane2, ?found2)"
      using r7 by auto
    have Qlt: "?Q (first + k) = (?T k \<noteq> 0)" if "0 \<le> k" "k < 7" for k
    proof -
      have "first + k < last' - 1" using that True by linarith
      then show ?thesis using pair_detected_block[OF True that, of cv a pred] by simp
    qed
    have Q7: "?Q (first + 7) = ?edge"
    proof -
      have "(first + 7 < last' - 1) = (first + 8 < last')" by linarith
      then show ?thesis using pair_detected_edge[of cv a pred first last'] by simp
    qed
    have lanes2: "\<forall>k. 0 \<le> k \<and> k < 8 \<longrightarrow> (?lane2 ! nat k \<noteq> 0) = ?Q (first + k)"
    proof (intro allI impI)
      fix k :: int assume k: "0 \<le> k \<and> k < 8"
      show "(?lane2 ! nat k \<noteq> 0) = ?Q (first + k)"
      proof (cases "k < 7")
        case lt: True
        then have "?lane2 ! nat k = lane1 ! nat k" using k by (simp add: nth_list_update)
        also have "\<dots> = ?T k" using lanes1 k lt by simp
        finally have "(?lane2 ! nat k \<noteq> 0) = (?T k \<noteq> 0)" by simp
        then show ?thesis using Qlt[of k] k lt by simp
      next
        case ge: False
        then have k7: "k = 7" using k by simp
        have "(?lane2 ! 7 \<noteq> 0) = ?edge" using l7 len1 by simp
        then have "(?lane2 ! nat 7 \<noteq> 0) = ?Q (first + 7)" using Q7 by simp
        then show ?thesis unfolding k7 .
      qed
    qed
    have found2: "?found2 \<noteq> 0 \<longleftrightarrow> (\<exists>k. 0 \<le> k \<and> k < 8 \<and> ?Q (first + k))"
    proof -
      have A: "(\<exists>k. 0 \<le> k \<and> k < 8 \<and> ?Q (first + k))
            \<longleftrightarrow> (\<exists>k. 0 \<le> k \<and> k < 7 \<and> ?Q (first + k)) \<or> ?Q (first + 7)"
        (is "?L \<longleftrightarrow> ?R1 \<or> ?R2")
      proof
        assume ?L
        then obtain k where k: "0 \<le> k" "k < 8" "?Q (first + k)" by blast
        show "?R1 \<or> ?R2"
        proof (cases "k = 7")
          case True
          then show ?thesis using k(3) by simp
        next
          case False
          then have "k < 7" using k(2) by simp
          then show ?thesis using k by blast
        qed
      next
        assume "?R1 \<or> ?R2"
        then show ?L
        proof
          assume ?R1
          then obtain k where "0 \<le> k" "k < 7" "?Q (first + k)" by blast
          then have "0 \<le> k \<and> k < 8 \<and> ?Q (first + k)" by simp
          then show ?L by blast
        next
          assume ?R2
          then have "(0 :: int) \<le> 7 \<and> (7 :: int) < 8 \<and> ?Q (first + 7)" by simp
          then show ?L by blast
        qed
      qed
      have B: "?R1 \<longleftrightarrow> found1 \<noteq> 0"
      proof -
        have "?R1 \<longleftrightarrow> (\<exists>k. 0 \<le> k \<and> k < 7 \<and> ?T k \<noteq> 0)" using Qlt by blast
        then show ?thesis using fnd1 by simp
      qed
      have D: "?found2 \<noteq> 0 \<longleftrightarrow> ?edge \<or> found1 \<noteq> 0"
      proof (cases ?edge)
        case e: True
        show ?thesis unfolding if_P[OF e] using e by simp
      next
        case e: False
        show ?thesis unfolding if_not_P[OF e] using e by blast
      qed
      show ?thesis unfolding D A B Q7 by blast
    qed
    have len2: "length ?lane2 = 8" using len1 by simp
    show ?thesis
    proof (cases "?found2 \<noteq> 0")
      case found: True
      let ?i = "lane_scan ?lane2 0"
      have scan: "first_hit (\<lambda>k. ?lane2 ! nat k \<noteq> 0) 0 8 ?i" by (rule lane_scan_first) auto
      have "first_hit (\<lambda>k. ?Q (first + k)) 0 8 ?i"
        using lanes2 scan by (rule first_hit_cong)
      then have h: "first_hit ?Q (first + 0) (first + 8) (first + ?i)" by (rule first_hit_shift)
      have "\<exists>k. 0 \<le> k \<and> k < 8 \<and> ?lane2 ! nat k \<noteq> 0" using found found2 lanes2 by blast
      then have "?i \<noteq> 8" using first_hit_none[OF scan] by blast
      then have lt: "first + ?i < first + 8" "0 \<le> ?i" "?i < 8" using scan by (auto simp: first_hit_def)
      then have hit: "first_hit ?Q first last' (first + ?i)"
        using first_hit_within[OF _ h] True by simp
      have bs: "block_start first last' (first + ?i) = first"
        by (rule block_start_block[OF True lt(2,3)])
      have "simd_adjacent_find_while cv a pred or_semantic last' lane first
                 = (if or_semantic then Some first else Some (first + ?i))"
        by (rule trans[OF simd_adjacent_find_while_unfold[OF True fill edge] if_P[OF found]])
      then have res: "simd_adjacent_find_while cv a pred or_semantic last' lane first
                 = Some (if or_semantic then block_start first last' (first + ?i) else first + ?i)"
        unfolding bs by (cases or_semantic) simp_all
      show ?thesis using res hit by blast
    next
      case nf: False
      let ?Q8 = "\<lambda>j. j < last' - 1 \<and> pair_detected cv a pred (first + 8) last' j"
      have b: "0 \<le> first + 8" "first + 8 \<le> last'" using "1.prems" True by linarith+
      have ne: "\<not> ?edge" using nf by auto
      have l7': "?lane2 ! 7 = 0" unfolding if_not_P[OF ne] by (rule l7)
      from "1.IH"[OF True fill refl edge refl nf b "1.prems"(3) len2 l7']
      obtain k where k: "first_hit ?Q8 (first + 8) last' k"
        "simd_adjacent_find_while cv a pred or_semantic last' ?lane2 (first + 8)
           = Some (if or_semantic then block_start (first + 8) last' k else k)"
        by blast
      have k8: "first_hit ?Q (first + 8) last' k" using k(1) unfolding pair_detected_shift .
      have hit: "first_hit ?Q first last' k"
      proof (rule first_hit_skip[OF _ _ _ k8])
        show "\<forall>j. first \<le> j \<and> j < first + 8 \<longrightarrow> \<not> ?Q j"
        proof (intro allI impI)
          fix j assume "first \<le> j \<and> j < first + 8"
          then have "0 \<le> j - first \<and> j - first < 8" by auto
          with nf found2 have "\<not> ?Q (first + (j - first))" by blast
          then show "\<not> ?Q j" by simp
        qed
      qed (use True in auto)
      have "simd_adjacent_find_while cv a pred or_semantic last' lane first
                     = simd_adjacent_find_while cv a pred or_semantic last' ?lane2 (first + 8)"
        by (rule trans[OF simd_adjacent_find_while_unfold[OF True fill edge] if_not_P[OF nf]])
      then have "simd_adjacent_find_while cv a pred or_semantic last' lane first
                 = Some (if or_semantic then block_start first last' k else k)"
        using k(2) unfolding block_start_shift by (rule trans)
      then show ?thesis using hit by blast
    qed
  qed
qed

lemma simd_adjacent_find_earlyexit_hit:
  assumes "0 \<le> first" and "first + n + 1 \<le> int (length a)" and "0 \<le> i" and "i \<le> n"
  shows "\<exists>k. simd_adjacent_find_earlyexit a first pred n i = Some k
             \<and> first_hit (\<lambda>j. pred (a ! nat (first + j)) (a ! nat (first + (j + 1)))) i n k"
  using assms
proof (induction a first pred n i rule: simd_adjacent_find_earlyexit.induct)
  case (1 a first pred n i)
  let ?P = "\<lambda>j. pred (a ! nat (first + j)) (a ! nat (first + (j + 1)))"
  show ?case
  proof (cases "i < n")
    case False
    with "1.prems" have "i = n" by simp
    then show ?thesis by (subst simd_adjacent_find_earlyexit.simps) (simp add: first_hit_empty)
  next
    case True
    have r1: "rd a (first + i) = Some (a ! nat (first + i))"
      using "1.prems" True by (simp add: rd_def)
    have r2: "rd a (first + (i + 1)) = Some (a ! nat (first + (i + 1)))"
      using "1.prems" True by (simp add: rd_def)
    show ?thesis
    proof (cases "?P i")
      case p: True
      have "first_hit ?P i n i" using first_hit_here[of i n ?P] True p by simp
      then show ?thesis using True r1 r2 p
        by (subst simd_adjacent_find_earlyexit.simps) simp
    next
      case p: False
      have b: "0 \<le> i + 1" "i + 1 \<le> n" using "1.prems" True by linarith+
      from "1.IH"[OF True r1 r2 p "1.prems"(1,2) b]
      obtain k where k: "simd_adjacent_find_earlyexit a first pred n (i + 1) = Some k"
        "first_hit ?P (i + 1) n k" by blast
      have "\<forall>j. i \<le> j \<and> j < i + 1 \<longrightarrow> \<not> ?P j" using p by (auto simp: order_le_less)
      then have "first_hit ?P i n k" using first_hit_skip[OF _ b(2) _ k(2), of i] by simp
      then show ?thesis using True r1 r2 p k(1)
        by (subst simd_adjacent_find_earlyexit.simps) simp
    qed
  qed
qed

text \<open>
  What \<open>simd_adjacent_find\<close> makes of the pair at \<open>j\<close>: with the early-exit loop every
  predicate result is used as a condition.
\<close>

lemma simd_adjacent_find_hit:
  assumes "0 \<le> first" and "first \<le> last'" and "last' \<le> int (length a)"
  shows "\<exists>k. first_hit (\<lambda>j. j < last' - 1
                    \<and> (if ee then truth cv (pred (a ! nat j) (a ! nat (j + 1)))
                        else pair_detected cv a pred first last' j)) first last' k
             \<and> simd_adjacent_find cv ee a first last' pred or_semantic
                 = Some (if or_semantic \<and> \<not> ee then block_start first last' k else k)"
proof -
  let ?Q = "\<lambda>j. j < last' - 1
                    \<and> (if ee then truth cv (pred (a ! nat j) (a ! nat (j + 1)))
                        else pair_detected cv a pred first last' j)"
  consider (short) "last' - first < 2" | (ee) "\<not> last' - first < 2" "ee"
    | (blocks) "\<not> last' - first < 2" "\<not> ee" by blast
  then show ?thesis
  proof cases
    case short
    have hit: "first_hit ?Q first last' last'" using short assms by (auto simp: first_hit_def)
    have "block_start first last' last' = last'" by (simp add: block_start_def)
    then have "simd_adjacent_find cv ee a first last' pred or_semantic
               = Some (if or_semantic \<and> \<not> ee then block_start first last' last' else last')"
      using short by (simp add: simd_adjacent_find_def)
    then show ?thesis using hit by blast
  next
    case blocks
    have "length (replicate 8 (0 :: int)) = 8" "replicate 8 (0 :: int) ! 7 = 0" by simp_all
    from simd_adjacent_find_while_hit[OF assms this, of cv pred or_semantic]
    show ?thesis using blocks by (simp add: simd_adjacent_find_def)
  next
    case ee
    let ?n = "last' - first - 1"
    let ?tp = "\<lambda>x y. truth cv (pred x y)"
    let ?P = "\<lambda>j. ?tp (a ! nat (first + j)) (a ! nat (first + (j + 1)))"
    let ?R = "\<lambda>j. j < last' - 1 \<and> ?tp (a ! nat j) (a ! nat (j + 1))"
    have "\<exists>k. simd_adjacent_find_earlyexit a first ?tp ?n 0 = Some k \<and> first_hit ?P 0 ?n k"
      by (rule simd_adjacent_find_earlyexit_hit) (use assms ee in auto)
    then obtain i where i: "simd_adjacent_find_earlyexit a first ?tp ?n 0 = Some i"
      "first_hit ?P 0 ?n i" by blast
    let ?r = "if i < ?n then first + i else last'"
    have res: "simd_adjacent_find cv ee a first last' pred or_semantic = Some ?r"
      using ee i(1) by (simp add: simd_adjacent_find_def)
    have h1: "first \<le> ?r" "?r \<le> last'" using i(2) assms ee by (auto simp: first_hit_def)
    have h2: "?R ?r" if "?r < last'"
    proof -
      have lt: "i < ?n" using that by (auto split: if_splits)
      then have "?P i" using i(2) by (simp add: first_hit_def)
      then show ?thesis using lt by (simp add: algebra_simps)
    qed
    have h3: "\<not> ?R j" if j: "first \<le> j \<and> j < ?r" for j
    proof
      assume q: "?R j"
      have all: "\<forall>j'. 0 \<le> j' \<and> j' < i \<longrightarrow> \<not> ?P j'" using i(2) by (simp add: first_hit_def)
      have "0 \<le> j - first \<and> j - first < i"
        using j q i(2) by (auto simp: first_hit_def split: if_splits)
      with all have "\<not> ?P (j - first)" by blast
      then show False using q by (simp add: algebra_simps)
    qed
    have "first_hit ?R first last' ?r"
      unfolding first_hit_def using h1 h2 h3 by blast
    then have hit: "first_hit ?Q first last' ?r" using ee(2) by simp
    have "simd_adjacent_find cv ee a first last' pred or_semantic
          = Some (if or_semantic \<and> \<not> ee then block_start first last' ?r else ?r)"
      using res ee(2) by simp
    then show ?thesis using hit by blast
  qed
qed

text \<open>
  The conversion to \<^verbatim>\<open>int\<close> in lanes 0 to 6 loses a match: on eight elements whose only
  equal pair is at index 3, with a predicate whose result \<open>2^40\<close> is true as a condition,
  the block strategy returns \<open>last\<close> in both modes and the early-exit loop returns 3.
\<close>

lemma simd_adjacent_find_narrowing_example:
  "simd_adjacent_find uint64_conv False [0, 1, 2, 3, 3, 5, 6, 7 :: int] 0 8
       (\<lambda>x y. if x = y then 1099511627776 else 0) False = Some 8
   \<and> simd_adjacent_find uint64_conv False [0, 1, 2, 3, 3, 5, 6, 7 :: int] 0 8
       (\<lambda>x y. if x = y then 1099511627776 else 0) True = Some 8
   \<and> simd_adjacent_find uint64_conv True [0, 1, 2, 3, 3, 5, 6, 7 :: int] 0 8
       (\<lambda>x y. if x = y then 1099511627776 else 0) False = Some 3
   \<and> \<not> pair_detected uint64_conv [0, 1, 2, 3, 3, 5, 6, 7 :: int]
         (\<lambda>x y. if x = y then 1099511627776 else 0) 0 8 3"
  by code_simp

text \<open>
  Claim C9 says that with \<open>or_semantic = true\<close> adjacent-find returns \<open>first\<close> if and only if
  the call with \<open>or_semantic = false\<close> returns a result different from \<open>last\<close>. On three
  elements whose only matching pair starts at index 1 both calls return index 1, which is
  neither \<open>first\<close> nor \<open>last\<close>; on seventeen elements whose only matching pair starts at
  index 9 the existence mode returns 8, the start of the second block.
\<close>

theorem simd_adjacent_find_or_semantic_counterexample:
  "simd_adjacent_find bool_conv False [1, 2, 2 :: int] 0 3 (=) True = Some 1
   \<and> simd_adjacent_find bool_conv False [1, 2, 2 :: int] 0 3 (=) False = Some 1
   \<and> \<not> (simd_adjacent_find bool_conv False [1, 2, 2 :: int] 0 3 (=) True = Some 0
          \<longleftrightarrow> simd_adjacent_find bool_conv False [1, 2, 2 :: int] 0 3 (=) False \<noteq> Some 3)
   \<and> simd_adjacent_find bool_conv False
       [0, 1, 2, 3, 4, 5, 6, 7, 8, 9, 9, 11, 12, 13, 14, 15, 16 :: int] 0 17 (=) True = Some 8
   \<and> simd_adjacent_find bool_conv False
       [0, 1, 2, 3, 4, 5, 6, 7, 8, 9, 9, 11, 12, 13, 14, 15, 16 :: int] 0 17 (=) False = Some 9"
  by code_simp

text \<open>
  Claim C9, amended. For every valid range and binary predicate, adjacent-find with
  \<open>or_semantic = true\<close> returns a result different from \<open>last\<close> if and only if the call with
  \<open>or_semantic = false\<close> does. With the early-exit loop the two results are equal. With the
  block strategy the result of the existence mode is \<open>block_start\<close> of the exact result:
  the start of the block of 8, counted from \<open>first\<close>, that holds the exact result when
  that block is a full one, and the exact result itself when it lies in the remainder or
  is \<open>last\<close>; so it lies between \<open>first\<close> and the exact result. The exact result is the
  first position whose pair the strategy detects (\<open>last\<close> when there is none): in lanes 0
  to 6 of a full block a pair is detected when the predicate result converted to \<^verbatim>\<open>int\<close>
  is not 0, elsewhere when the result is true as a condition. With the early-exit loop, or
  with faithful conversions, the exact result is the first matching pair, and it differs
  from \<open>last\<close> exactly when some adjacent pair matches.
\<close>

theorem simd_adjacent_find_modes_agree:
  assumes "valid_range a first (last' - first)"
  shows "\<exists>r_or r_ex. simd_adjacent_find cv earlyexit_present a first last' pred True = Some r_or
           \<and> simd_adjacent_find cv earlyexit_present a first last' pred False = Some r_ex
           \<and> (r_or \<noteq> last' \<longleftrightarrow> r_ex \<noteq> last')
           \<and> r_or = (if earlyexit_present then r_ex else block_start first last' r_ex)
           \<and> first \<le> r_or \<and> r_or \<le> r_ex \<and> r_ex \<le> last'
           \<and> first_hit (\<lambda>j. j < last' - 1
                    \<and> (if earlyexit_present then truth cv (pred (a ! nat j) (a ! nat (j + 1)))
                        else pair_detected cv a pred first last' j)) first last' r_ex
           \<and> (earlyexit_present \<or> faithful cv \<longrightarrow>
                first_hit (\<lambda>j. j < last' - 1 \<and> truth cv (pred (a ! nat j) (a ! nat (j + 1))))
                  first last' r_ex
                \<and> (r_ex \<noteq> last' \<longleftrightarrow>
                     (\<exists>j. first \<le> j \<and> j + 1 < last' \<and> truth cv (pred (a ! nat j) (a ! nat (j + 1))))))"
proof -
  let ?Q = "\<lambda>j. j < last' - 1
                    \<and> (if earlyexit_present then truth cv (pred (a ! nat j) (a ! nat (j + 1)))
                        else pair_detected cv a pred first last' j)"
  let ?R = "\<lambda>j. j < last' - 1 \<and> truth cv (pred (a ! nat j) (a ! nat (j + 1)))"
  have v: "0 \<le> first" "first \<le> last'" "last' \<le> int (length a)"
    using assms by (auto simp: valid_range_def)
  obtain k where o: "first_hit ?Q first last' k"
    "simd_adjacent_find cv earlyexit_present a first last' pred True
       = Some (if True \<and> \<not> earlyexit_present then block_start first last' k else k)"
    using simd_adjacent_find_hit[OF v, of earlyexit_present cv pred True] by blast
  obtain r_ex where e: "first_hit ?Q first last' r_ex"
    "simd_adjacent_find cv earlyexit_present a first last' pred False
       = Some (if False \<and> \<not> earlyexit_present then block_start first last' r_ex else r_ex)"
    using simd_adjacent_find_hit[OF v, of earlyexit_present cv pred False] by blast
  have k: "k = r_ex" using first_hit_unique[OF o(1) e(1)] .
  let ?r_or = "if earlyexit_present then r_ex else block_start first last' r_ex"
  have b: "first \<le> r_ex" "r_ex \<le> last'" using e(1) by (simp_all add: first_hit_def)
  have 1: "simd_adjacent_find cv earlyexit_present a first last' pred True = Some ?r_or"
    using o(2) unfolding k by simp
  have 2: "simd_adjacent_find cv earlyexit_present a first last' pred False = Some r_ex"
    using e(2) by simp
  have 3: "?r_or \<noteq> last' \<longleftrightarrow> r_ex \<noteq> last'" using block_start_bounds(3)[OF b] by simp
  have 4: "first \<le> ?r_or" "?r_or \<le> r_ex" using block_start_bounds(1,2)[OF b] b by simp_all
  have 5: "first_hit ?R first last' r_ex
           \<and> (r_ex \<noteq> last' \<longleftrightarrow>
                (\<exists>j. first \<le> j \<and> j + 1 < last' \<and> truth cv (pred (a ! nat j) (a ! nat (j + 1)))))"
    if f: "earlyexit_present \<or> faithful cv"
  proof -
    have "\<forall>j. first \<le> j \<and> j < last' \<longrightarrow> ?Q j = ?R j"
      using f pair_detected_faithful[of cv a pred first last'] by auto
    then have h: "first_hit ?R first last' r_ex" using e(1) by (rule first_hit_cong)
    have "r_ex = last' \<longleftrightarrow> (\<forall>j. first \<le> j \<and> j < last' \<longrightarrow> \<not> ?R j)"
      using first_hit_none[OF h] .
    also have "\<dots> \<longleftrightarrow> \<not> (\<exists>j. first \<le> j \<and> j + 1 < last' \<and> truth cv (pred (a ! nat j) (a ! nat (j + 1))))"
      by auto
    finally show ?thesis using h by blast
  qed
  show ?thesis
    apply (rule exI[of _ ?r_or], rule exI[of _ r_ex])
    using 1 2 3 4 b(2) e(1) 5 by blast
qed

theorem simd_adjacent_find_modes_agree_witness:
  "valid_range [0, 1, 2, 3, 4, 5, 6, 7, 8, 9, 9, 11, 12, 13, 14, 15, 16 :: int] 0 (17 - 0)
   \<and> faithful bool_conv
   \<and> simd_adjacent_find bool_conv False
       [0, 1, 2, 3, 4, 5, 6, 7, 8, 9, 9, 11, 12, 13, 14, 15, 16 :: int] 0 17 (=) True = Some 8
   \<and> simd_adjacent_find bool_conv False
       [0, 1, 2, 3, 4, 5, 6, 7, 8, 9, 9, 11, 12, 13, 14, 15, 16 :: int] 0 17 (=) False = Some 9
   \<and> block_start 0 17 9 = 8
   \<and> first_hit (\<lambda>j. j < 17 - 1
          \<and> truth bool_conv ([0, 1, 2, 3, 4, 5, 6, 7, 8, 9, 9, 11, 12, 13, 14, 15, 16 :: int] ! nat j
              = [0, 1, 2, 3, 4, 5, 6, 7, 8, 9, 9, 11, 12, 13, 14, 15, 16 :: int] ! nat (j + 1)))
        0 17 9"
proof -
  let ?a = "[0, 1, 2, 3, 4, 5, 6, 7, 8, 9, 9, 11, 12, 13, 14, 15, 16 :: int]"
  have v: "valid_range ?a 0 (17 - 0)" by (simp add: valid_range_def)
  have f: "faithful bool_conv" by (rule faithful_bool_conv)
  have e1: "simd_adjacent_find bool_conv False ?a 0 17 (=) True = Some 8" by code_simp
  have e2: "simd_adjacent_find bool_conv False ?a 0 17 (=) False = Some 9" by code_simp
  have bs: "block_start 0 17 9 = 8" by (simp add: block_start_def)
  show ?thesis
    using v f e1 e2 bs simd_adjacent_find_modes_agree[OF v, of bool_conv False "(=)"] by simp
qed

section \<open>Subsequence search: order of the candidates and the occurrence returned\<close>

lemma occurs_at_nth:
  assumes "valid_range s s_first (s_last - s_first)" and "valid_range a pos (s_last - s_first)"
  shows "occurs_at a s s_first s_last p pos
         \<longleftrightarrow> (\<forall>j. 0 \<le> j \<and> j < s_last - s_first \<longrightarrow> p (s ! nat (s_first + j)) (a ! nat (pos + j)))"
proof -
  let ?n = "s_last - s_first"
  let ?xs = "slice s s_first ?n" and ?ys = "slice a pos ?n"
  have len: "length ?xs = nat ?n" "length ?ys = nat ?n"
    using length_slice[OF assms(1)] length_slice[OF assms(2)] by simp_all
  have "occurs_at a s s_first s_last p pos \<longleftrightarrow> (\<forall>k < nat ?n. p (?xs ! k) (?ys ! k))"
    using len by (simp add: occurs_at_def list_all2_conv_all_nth)
  also have "\<dots> \<longleftrightarrow> (\<forall>j. 0 \<le> j \<and> j < ?n \<longrightarrow> p (s ! nat (s_first + j)) (a ! nat (pos + j)))"
  proof
    assume h: "\<forall>k < nat ?n. p (?xs ! k) (?ys ! k)"
    show "\<forall>j. 0 \<le> j \<and> j < ?n \<longrightarrow> p (s ! nat (s_first + j)) (a ! nat (pos + j))"
    proof (intro allI impI)
      fix j assume j: "0 \<le> j \<and> j < ?n"
      then have "nat j < nat ?n" by simp
      with h have "p (?xs ! nat j) (?ys ! nat j)" by blast
      then show "p (s ! nat (s_first + j)) (a ! nat (pos + j))"
        using slice_nth[OF assms(1), of j] slice_nth[OF assms(2), of j] j by simp
    qed
  next
    assume h: "\<forall>j. 0 \<le> j \<and> j < ?n \<longrightarrow> p (s ! nat (s_first + j)) (a ! nat (pos + j))"
    show "\<forall>k < nat ?n. p (?xs ! k) (?ys ! k)"
    proof (intro allI impI)
      fix k assume "k < nat ?n"
      then have k: "0 \<le> int k" "int k < ?n" by simp_all
      with h have "p (s ! nat (s_first + int k)) (a ! nat (pos + int k))" by blast
      then show "p (?xs ! k) (?ys ! k)"
        using slice_nth[OF assms(1) k] slice_nth[OF assms(2) k] by simp
    qed
  qed
  finally show ?thesis .
qed

lemma window_check:
  assumes "valid_range s s_first (s_last - s_first)" and "valid_range a pos (s_last - s_first)"
  shows "\<exists>r. simd_first2 bool_conv ee s s_first (s_last - s_first) a pos (not_pred p) = Some r
             \<and> (r = s_last \<longleftrightarrow> occurs_at a s s_first s_last p pos)"
proof -
  let ?n = "s_last - s_first"
  let ?P = "\<lambda>j. truth bool_conv (not_pred p (s ! nat (s_first + j)) (a ! nat (pos + j)))"
  have f: "ee \<or> faithful bool_conv" using faithful_bool_conv by simp
  obtain k where k: "simd_first2 bool_conv ee s s_first ?n a pos (not_pred p) = Some (s_first + k)"
    "first_hit ?P 0 ?n k"
    using simd_first2_hit[OF assms f, of "not_pred p"] by blast
  have "k = ?n \<longleftrightarrow> (\<forall>j. 0 \<le> j \<and> j < ?n \<longrightarrow> \<not> ?P j)" using first_hit_none[OF k(2)] .
  also have "\<dots> \<longleftrightarrow> occurs_at a s s_first s_last p pos"
    by (simp add: occurs_at_nth[OF assms] not_pred_def bool_conv_def)
  finally have "s_first + k = s_last \<longleftrightarrow> occurs_at a s s_first s_last p pos" by auto
  then show ?thesis using k(1) by simp
qed

lemma upto_Cons: "(i :: int) \<le> j \<Longrightarrow> [i..j] = i # [i + 1..j]"
  by (simp add: upto_rec1)

lemma simd_search_for_first:
  assumes "valid_range s s_first (s_last - s_first)"
    and "0 \<le> first" and "- 1 \<le> i" and "first + i + (s_last - s_first) \<le> int (length a)"
  shows "\<exists>k. simd_search_for ee a s s_first s_last p True i first result tested
               = Some (if k \<le> first + i then k else result, tested @ [first..min k (first + i)])
             \<and> first_hit (occurs_at a s s_first s_last p) first (first + i + 1) k"
  using assms(2-4)
proof (induction "nat (i + 1)" arbitrary: i first result tested)
  case 0
  then have i: "i = - 1" by simp
  have "first_hit (occurs_at a s s_first s_last p) first (first + i + 1) first"
    using i by (simp add: first_hit_empty)
  moreover have "simd_search_for ee a s s_first s_last p True i first result tested
                 = Some (result, tested)"
    using i by (subst simd_search_for.simps) simp
  ultimately show ?case using i by (intro exI[of _ first]) simp
next
  case (Suc n)
  let ?occ = "occurs_at a s s_first s_last p"
  have i: "0 \<le> i" "n = nat (i - 1 + 1)" using Suc.hyps(2) by linarith+
  have va: "valid_range a first (s_last - s_first)"
    using assms(1) Suc.prems i by (simp add: valid_range_def)
  obtain r where r: "simd_first2 bool_conv ee s s_first (s_last - s_first) a first (not_pred p) = Some r"
    "r = s_last \<longleftrightarrow> ?occ first"
    using window_check[OF assms(1) va, of ee p] by blast
  show ?case
  proof (cases "?occ first")
    case True
    have "first_hit ?occ first (first + i + 1) first"
      using first_hit_here[of first "first + i + 1" ?occ] True i by simp
    moreover have "simd_search_for ee a s s_first s_last p True i first result tested
                   = Some (first, tested @ [first])"
      using i r True by (subst simd_search_for.simps) simp
    ultimately show ?thesis using i by (intro exI[of _ first]) (simp add: min_def)
  next
    case False
    have b: "0 \<le> first + 1" "- 1 \<le> i - 1" "first + 1 + (i - 1) + (s_last - s_first) \<le> int (length a)"
      using Suc.prems i by linarith+
    from Suc.hyps(1)[OF i(2) b, of result "tested @ [first]"]
    obtain k where k: "simd_search_for ee a s s_first s_last p True (i - 1) (first + 1) result (tested @ [first])
               = Some (if k \<le> first + 1 + (i - 1) then k else result,
                       (tested @ [first]) @ [first + 1..min k (first + 1 + (i - 1))])"
      "first_hit ?occ (first + 1) (first + 1 + (i - 1) + 1) k" by blast
    have k1: "first + 1 \<le> k" using k(2) by (simp add: first_hit_def)
    have hit: "first_hit ?occ first (first + i + 1) k"
    proof (rule first_hit_skip[of first "first + 1"])
      show "\<forall>j. first \<le> j \<and> j < first + 1 \<longrightarrow> \<not> ?occ j" using False by (auto simp: order_le_less)
      show "first_hit ?occ (first + 1) (first + i + 1) k" using k(2) by (simp add: algebra_simps)
    qed (use i in auto)
    have "[first..min k (first + i)] = first # [first + 1..min k (first + i)]"
      by (rule upto_Cons) (use k1 i in auto)
    then have t: "(tested @ [first]) @ [first + 1..min k (first + 1 + (i - 1))]
                  = tested @ [first..min k (first + i)]" by simp
    have "simd_search_for ee a s s_first s_last p True i first result tested
          = simd_search_for ee a s s_first s_last p True (i - 1) (first + 1) result (tested @ [first])"
      using i r False by (subst simd_search_for.simps) simp
    then have "simd_search_for ee a s s_first s_last p True i first result tested
          = Some (if k \<le> first + i then k else result, tested @ [first..min k (first + i)])"
      using k(1) t by simp
    then show ?thesis using hit by blast
  qed
qed

lemma simd_search_for_last:
  assumes "valid_range s s_first (s_last - s_first)"
    and "0 \<le> first" and "- 1 \<le> i" and "first + i + (s_last - s_first) \<le> int (length a)"
  shows "\<exists>r. simd_search_for ee a s s_first s_last p False i first result tested
               = Some (r, tested @ [first..first + i])
             \<and> (if \<exists>q. first \<le> q \<and> q \<le> first + i \<and> occurs_at a s s_first s_last p q
                 then first \<le> r \<and> r \<le> first + i \<and> occurs_at a s s_first s_last p r
                      \<and> (\<forall>q. r < q \<and> q \<le> first + i \<longrightarrow> \<not> occurs_at a s s_first s_last p q)
                 else r = result)"
  using assms(2-4)
proof (induction "nat (i + 1)" arbitrary: i first result tested)
  case 0
  then have i: "i = - 1" by simp
  have "simd_search_for ee a s s_first s_last p False i first result tested = Some (result, tested)"
    using i by (subst simd_search_for.simps) simp
  then show ?case using i by (intro exI[of _ result]) auto
next
  case (Suc n)
  let ?occ = "occurs_at a s s_first s_last p"
  have i: "0 \<le> i" "n = nat (i - 1 + 1)" using Suc.hyps(2) by linarith+
  have va: "valid_range a first (s_last - s_first)"
    using assms(1) Suc.prems i by (simp add: valid_range_def)
  obtain w where w: "simd_first2 bool_conv ee s s_first (s_last - s_first) a first (not_pred p) = Some w"
    "w = s_last \<longleftrightarrow> ?occ first"
    using window_check[OF assms(1) va, of ee p] by blast
  have b: "0 \<le> first + 1" "- 1 \<le> i - 1" "first + 1 + (i - 1) + (s_last - s_first) \<le> int (length a)"
    using Suc.prems i by linarith+
  let ?res = "if ?occ first then first else result"
  from Suc.hyps(1)[OF i(2) b, of ?res "tested @ [first]"]
  obtain r where r: "simd_search_for ee a s s_first s_last p False (i - 1) (first + 1) ?res (tested @ [first])
               = Some (r, (tested @ [first]) @ [first + 1..first + 1 + (i - 1)])"
    "if \<exists>q. first + 1 \<le> q \<and> q \<le> first + 1 + (i - 1) \<and> ?occ q
     then first + 1 \<le> r \<and> r \<le> first + 1 + (i - 1) \<and> ?occ r
          \<and> (\<forall>q. r < q \<and> q \<le> first + 1 + (i - 1) \<longrightarrow> \<not> ?occ q)
     else r = ?res" by blast
  have "[first..first + i] = first # [first + 1..first + i]"
    by (rule upto_Cons) (use i in auto)
  then have t: "(tested @ [first]) @ [first + 1..first + 1 + (i - 1)] = tested @ [first..first + i]"
    by simp
  have "simd_search_for ee a s s_first s_last p False i first result tested
        = simd_search_for ee a s s_first s_last p False (i - 1) (first + 1) ?res (tested @ [first])"
    using i w by (subst simd_search_for.simps) simp
  then have run: "simd_search_for ee a s s_first s_last p False i first result tested
        = Some (r, tested @ [first..first + i])"
    using r(1) t by simp
  have split: "(\<exists>q. first \<le> q \<and> q \<le> first + i \<and> ?occ q)
               \<longleftrightarrow> ?occ first \<or> (\<exists>q. first + 1 \<le> q \<and> q \<le> first + 1 + (i - 1) \<and> ?occ q)"
    (is "?L \<longleftrightarrow> _ \<or> ?R")
  proof
    assume ?L
    then obtain q where q: "first \<le> q" "q \<le> first + i" "?occ q" by blast
    show "?occ first \<or> ?R"
    proof (cases "q = first")
      case True
      then show ?thesis using q by simp
    next
      case False
      then have "first + 1 \<le> q \<and> q \<le> first + 1 + (i - 1) \<and> ?occ q" using q by simp
      then show ?thesis by blast
    qed
  next
    assume "?occ first \<or> ?R"
    then show ?L
    proof
      assume "?occ first"
      then have "first \<le> first \<and> first \<le> first + i \<and> ?occ first" using i by simp
      then show ?L by blast
    next
      assume ?R
      then obtain q where "first + 1 \<le> q" "q \<le> first + 1 + (i - 1)" "?occ q" by blast
      then have "first \<le> q \<and> q \<le> first + i \<and> ?occ q" by simp
      then show ?L by blast
    qed
  qed
  have post: "if \<exists>q. first \<le> q \<and> q \<le> first + i \<and> ?occ q
        then first \<le> r \<and> r \<le> first + i \<and> ?occ r \<and> (\<forall>q. r < q \<and> q \<le> first + i \<longrightarrow> \<not> ?occ q)
        else r = result"
  proof (cases "\<exists>q. first + 1 \<le> q \<and> q \<le> first + 1 + (i - 1) \<and> ?occ q")
    case True
    then have "first + 1 \<le> r \<and> r \<le> first + 1 + (i - 1) \<and> ?occ r
          \<and> (\<forall>q. r < q \<and> q \<le> first + 1 + (i - 1) \<longrightarrow> \<not> ?occ q)" using r(2) by simp
    then have "first \<le> r \<and> r \<le> first + i \<and> ?occ r \<and> (\<forall>q. r < q \<and> q \<le> first + i \<longrightarrow> \<not> ?occ q)"
      by simp
    moreover have ex: "\<exists>q. first \<le> q \<and> q \<le> first + i \<and> ?occ q" using True split by blast
    ultimately show ?thesis unfolding if_P[OF ex] by simp
  next
    case False
    then have rr: "r = ?res" using r(2) by simp
    show ?thesis
    proof (cases "?occ first")
      case o: True
      have "\<forall>q. first < q \<and> q \<le> first + i \<longrightarrow> \<not> ?occ q"
      proof (intro allI impI)
        fix q assume "first < q \<and> q \<le> first + i"
        then have "first + 1 \<le> q \<and> q \<le> first + 1 + (i - 1)" by simp
        with False show "\<not> ?occ q" by blast
      qed
      moreover have ex: "\<exists>q. first \<le> q \<and> q \<le> first + i \<and> ?occ q" using o split by blast
      ultimately show ?thesis unfolding if_P[OF ex] using o rr i by simp
    next
      case o: False
      have none: "\<not> (\<exists>q. first \<le> q \<and> q \<le> first + i \<and> ?occ q)" using o False split by blast
      show ?thesis unfolding if_not_P[OF none] using rr o by simp
    qed
  qed
  show ?case using run post by blast
qed

text \<open>
  Claim C8 says that the candidate start positions are tested from the last valid position
  backward to the first, and that with \<open>first_occurrence\<close> the loop keeps overwriting the
  result until it reaches position 0. In the loop the counter \<open>i\<close> runs downward while the
  position \<open>first\<close> runs upward: on the haystack \<open>[1,2,3,4,5]\<close> with needle \<open>[3,4]\<close> the
  positions tested are 0, 1, 2 in this order, not 3, 2, 1, 0, and when the needle occurs at
  position 0 the loop stops after that single test.
\<close>

theorem simd_search_order_counterexample:
  "simd_search_log False [1, 2, 3, 4, 5 :: int] 0 5 [3, 4 :: int] 0 2 (=) True = Some (2, [0, 1, 2])
   \<and> map_option snd (simd_search_log False [1, 2, 3, 4, 5 :: int] 0 5 [3, 4 :: int] 0 2 (=) True)
       \<noteq> Some (rev [0..5 - 2])
   \<and> simd_search_log False [1, 2, 1, 2, 1 :: int] 0 5 [1, 2 :: int] 0 2 (=) True = Some (0, [0])"
  by code_simp

text \<open>
  Claim C8, amended. In \<open>simd_search\<close> the candidate start positions are tested from the
  first position forward to the last valid one. When \<open>first_occurrence\<close> is requested the
  loop stops at the first match, so the positions tested are \<open>first, \<dots>, r\<close> and the value
  returned is \<open>r\<close>, the leftmost occurrence; when there is no occurrence every candidate is
  tested and \<open>last\<close> is returned. Without \<open>first_occurrence\<close> every candidate is tested.
\<close>

theorem simd_search_first_occurrence:
  assumes "valid_range a first (last' - first)" and "valid_range s s_first (s_last - s_first)"
    and "1 \<le> s_last - s_first" and "s_last - s_first \<le> last' - first"
  shows "\<exists>r tested r'.
           simd_search_log earlyexit_present a first last' s s_first s_last p True = Some (r, tested)
         \<and> simd_search earlyexit_present a first last' s s_first s_last p True = Some r
         \<and> (if \<exists>q. first \<le> q \<and> q + (s_last - s_first) \<le> last' \<and> occurs_at a s s_first s_last p q
            then first \<le> r \<and> r + (s_last - s_first) \<le> last' \<and> occurs_at a s s_first s_last p r
                 \<and> (\<forall>q. first \<le> q \<and> q < r \<longrightarrow> \<not> occurs_at a s s_first s_last p q)
                 \<and> tested = [first..r]
            else r = last' \<and> tested = [first..last' - (s_last - s_first)])
         \<and> simd_search_log earlyexit_present a first last' s s_first s_last p False
             = Some (r', [first..last' - (s_last - s_first)])"
proof -
  let ?n2 = "s_last - s_first"
  let ?i = "last' - first - ?n2"
  let ?occ = "occurs_at a s s_first s_last p"
  have b: "0 \<le> first" "- 1 \<le> ?i" "first + ?i + ?n2 \<le> int (length a)"
    using assms by (auto simp: valid_range_def)
  have hi: "first + ?i = last' - ?n2" by simp
  have unf: "simd_search_log earlyexit_present a first last' s s_first s_last p bf
             = simd_search_for earlyexit_present a s s_first s_last p bf ?i first last' []" for bf
    using assms(3,4) by (simp add: simd_search_log_def Let_def)
  obtain k where k: "simd_search_for earlyexit_present a s s_first s_last p True ?i first last' []
               = Some (if k \<le> first + ?i then k else last', [] @ [first..min k (first + ?i)])"
    "first_hit ?occ first (first + ?i + 1) k"
    using simd_search_for_first[OF assms(2) b, of earlyexit_present p last' "[]"] by blast
  obtain r' where r': "simd_search_for earlyexit_present a s s_first s_last p False ?i first last' []
               = Some (r', [] @ [first..first + ?i])"
    using simd_search_for_last[OF assms(2) b, of earlyexit_present p last' "[]"] by blast
  let ?r = "if k \<le> first + ?i then k else last'"
  let ?t = "[first..min k (first + ?i)]"
  have ex_iff: "(\<exists>q. first \<le> q \<and> q + ?n2 \<le> last' \<and> ?occ q) \<longleftrightarrow> k \<noteq> first + ?i + 1"
  proof -
    have "(\<exists>q. first \<le> q \<and> q + ?n2 \<le> last' \<and> ?occ q)
          \<longleftrightarrow> (\<exists>q. first \<le> q \<and> q < first + ?i + 1 \<and> ?occ q)"
      by (rule ex_cong1) auto
    then show ?thesis using first_hit_none[OF k(2)] by blast
  qed
  have post: "if \<exists>q. first \<le> q \<and> q + ?n2 \<le> last' \<and> ?occ q
        then first \<le> ?r \<and> ?r + ?n2 \<le> last' \<and> ?occ ?r
             \<and> (\<forall>q. first \<le> q \<and> q < ?r \<longrightarrow> \<not> ?occ q) \<and> ?t = [first..?r]
        else ?r = last' \<and> ?t = [first..last' - ?n2]"
  proof (cases "k = first + ?i + 1")
    case True
    then have none: "\<not> (\<exists>q. first \<le> q \<and> q + ?n2 \<le> last' \<and> ?occ q)" using ex_iff by blast
    have "min k (first + ?i) = last' - ?n2" "\<not> k \<le> first + ?i" using True by linarith+
    then show ?thesis unfolding if_not_P[OF none] by (simp only: if_False simp_thms)
  next
    case False
    then have ex: "\<exists>q. first \<le> q \<and> q + ?n2 \<le> last' \<and> ?occ q" using ex_iff by blast
    have kk: "first \<le> k" "k \<le> first + ?i" "?occ k" "\<forall>q. first \<le> q \<and> q < k \<longrightarrow> \<not> ?occ q"
      using k(2) False by (auto simp: first_hit_def)
    have "min k (first + ?i) = k" "k + ?n2 \<le> last'" using kk(2) by linarith+
    then show ?thesis unfolding if_P[OF ex] using kk by (simp only: if_True simp_thms)
  qed
  have A: "simd_search_log earlyexit_present a first last' s s_first s_last p True = Some (?r, ?t)"
    using k(1) unf[of True] by simp
  have B: "simd_search earlyexit_present a first last' s s_first s_last p True = Some ?r"
    using A by (simp add: simd_search_def)
  have C: "simd_search_log earlyexit_present a first last' s s_first s_last p False
           = Some (r', [first..last' - ?n2])"
    using r' unf[of False] hi by simp
  show ?thesis
    by (rule exI[of _ ?r], rule exI[of _ ?t], rule exI[of _ r']) (intro conjI A B post C)
qed

theorem simd_search_first_occurrence_witness:
  "valid_range [1, 2, 3, 4, 3, 4 :: int] 0 (6 - 0) \<and> valid_range [3, 4 :: int] 0 (2 - 0)
   \<and> (1 :: int) \<le> 2 - 0 \<and> (2 :: int) - 0 \<le> 6 - 0
   \<and> simd_search_log False [1, 2, 3, 4, 3, 4 :: int] 0 6 [3, 4 :: int] 0 2 (=) True = Some (2, [0, 1, 2])
   \<and> simd_search False [1, 2, 3, 4, 3, 4 :: int] 0 6 [3, 4 :: int] 0 2 (=) True = Some 2
   \<and> simd_search_log False [1, 2, 3, 4, 3, 4 :: int] 0 6 [3, 4 :: int] 0 2 (=) False
       = Some (4, [0, 1, 2, 3, 4])"
proof -
  let ?a = "[1, 2, 3, 4, 3, 4 :: int]" and ?s = "[3, 4 :: int]"
  have v: "valid_range ?a 0 (6 - 0)" "valid_range ?s 0 (2 - 0)" "(1 :: int) \<le> 2 - 0"
    "(2 :: int) - 0 \<le> 6 - 0"
    by (simp_all add: valid_range_def)
  have e: "simd_search_log False ?a 0 6 ?s 0 2 (=) True = Some (2, [0, 1, 2])"
    "simd_search_log False ?a 0 6 ?s 0 2 (=) False = Some (4, [0, 1, 2, 3, 4])"
    by code_simp+
  from simd_search_first_occurrence[OF v, of False "(=)"] e
  have "simd_search False ?a 0 6 ?s 0 2 (=) True = Some 2" by auto
  then show ?thesis using v e by simp
qed

text \<open>
  Claim C10. When \<open>first_occurrence\<close> is false and the needle occurs in the haystack,
  \<open>simd_search\<close> returns the start of the rightmost occurrence (and \<open>last\<close> when it does not
  occur); for every input, valid or not, and either flag it returns \<open>last\<close> when the needle
  is empty or longer than the haystack.
\<close>

theorem simd_search_last_occurrence:
  "(s_last - s_first < 1 \<or> last' - first < s_last - s_first \<longrightarrow>
      simd_search earlyexit_present a first last' s s_first s_last p b_first = Some last')
   \<and> (valid_range a first (last' - first) \<and> valid_range s s_first (s_last - s_first)
      \<and> 1 \<le> s_last - s_first \<and> s_last - s_first \<le> last' - first \<longrightarrow>
      (\<exists>r. simd_search earlyexit_present a first last' s s_first s_last p False = Some r
         \<and> (if \<exists>q. first \<le> q \<and> q + (s_last - s_first) \<le> last' \<and> occurs_at a s s_first s_last p q
            then first \<le> r \<and> r + (s_last - s_first) \<le> last' \<and> occurs_at a s s_first s_last p r
                 \<and> (\<forall>q. r < q \<and> q + (s_last - s_first) \<le> last'
                          \<longrightarrow> \<not> occurs_at a s s_first s_last p q)
            else r = last')))"
proof (intro conjI impI)
  assume "s_last - s_first < 1 \<or> last' - first < s_last - s_first"
  then show "simd_search earlyexit_present a first last' s s_first s_last p b_first = Some last'"
    by (auto simp: simd_search_def simd_search_log_def Let_def)
next
  let ?n2 = "s_last - s_first"
  let ?i = "last' - first - ?n2"
  let ?occ = "occurs_at a s s_first s_last p"
  assume h: "valid_range a first (last' - first) \<and> valid_range s s_first ?n2
             \<and> 1 \<le> ?n2 \<and> ?n2 \<le> last' - first"
  then have vs: "valid_range s s_first ?n2" by simp
  have b: "0 \<le> first" "- 1 \<le> ?i" "first + ?i + ?n2 \<le> int (length a)"
    using h by (auto simp: valid_range_def)
  have unf: "simd_search_log earlyexit_present a first last' s s_first s_last p False
             = simd_search_for earlyexit_present a s s_first s_last p False ?i first last' []"
    using h by (simp add: simd_search_log_def Let_def)
  obtain r where r: "simd_search_for earlyexit_present a s s_first s_last p False ?i first last' []
               = Some (r, [] @ [first..first + ?i])"
    "if \<exists>q. first \<le> q \<and> q \<le> first + ?i \<and> ?occ q
     then first \<le> r \<and> r \<le> first + ?i \<and> ?occ r \<and> (\<forall>q. r < q \<and> q \<le> first + ?i \<longrightarrow> \<not> ?occ q)
     else r = last'"
    using simd_search_for_last[OF vs b, of earlyexit_present p last' "[]"] by blast
  have le: "q \<le> first + ?i \<longleftrightarrow> q + ?n2 \<le> last'" for q by auto
  have post: "if \<exists>q. first \<le> q \<and> q + ?n2 \<le> last' \<and> ?occ q
     then first \<le> r \<and> r + ?n2 \<le> last' \<and> ?occ r \<and> (\<forall>q. r < q \<and> q + ?n2 \<le> last' \<longrightarrow> \<not> ?occ q)
     else r = last'"
    using r(2) unfolding le .
  have "simd_search earlyexit_present a first last' s s_first s_last p False = Some r"
    using r(1) unf by (simp add: simd_search_def)
  then show "\<exists>r. simd_search earlyexit_present a first last' s s_first s_last p False = Some r
         \<and> (if \<exists>q. first \<le> q \<and> q + ?n2 \<le> last' \<and> ?occ q
            then first \<le> r \<and> r + ?n2 \<le> last' \<and> ?occ r
                 \<and> (\<forall>q. r < q \<and> q + ?n2 \<le> last' \<longrightarrow> \<not> ?occ q)
            else r = last')"
    using post by blast
qed

theorem simd_search_last_occurrence_witness:
  "valid_range [1, 2, 1, 2, 1 :: int] 0 (5 - 0) \<and> valid_range [1, 2 :: int] 0 (2 - 0)
   \<and> (1 :: int) \<le> 2 - 0 \<and> (2 :: int) - 0 \<le> 5 - 0
   \<and> occurs_at [1, 2, 1, 2, 1 :: int] [1, 2 :: int] 0 2 (=) 0
   \<and> occurs_at [1, 2, 1, 2, 1 :: int] [1, 2 :: int] 0 2 (=) 2
   \<and> simd_search False [1, 2, 1, 2, 1 :: int] 0 5 [1, 2 :: int] 0 2 (=) False = Some 2
   \<and> \<not> occurs_at [1, 2, 1, 2, 1 :: int] [1, 2 :: int] 0 2 (=) 3
   \<and> ((0 :: int) - 0 < 1 \<or> (5 :: int) - 0 < 0 - 0)
   \<and> simd_search False [1, 2, 1, 2, 1 :: int] 0 5 [1, 2 :: int] 0 0 (=) False = Some 5
   \<and> ((3 :: int) - 0 < 1 \<or> (2 :: int) - 0 < 3 - 0)
   \<and> simd_search False [1, 2, 1, 2, 1 :: int] 0 2 [1, 2, 1 :: int] 0 3 (=) True = Some 2"
proof -
  let ?a = "[1, 2, 1, 2, 1 :: int]" and ?s = "[1, 2 :: int]"
  have v: "valid_range ?a 0 (5 - 0) \<and> valid_range ?s 0 (2 - 0) \<and> (1 :: int) \<le> 2 - 0
           \<and> (2 :: int) - 0 \<le> 5 - 0"
    by (simp add: valid_range_def)
  have o: "occurs_at ?a ?s 0 2 (=) 0" "occurs_at ?a ?s 0 2 (=) 2"
    by (simp_all add: occurs_at_def slice_def)
  have e: "simd_search False ?a 0 5 ?s 0 2 (=) False = Some 2" by code_simp
  have ex: "\<exists>q. 0 \<le> q \<and> q + (2 - 0) \<le> 5 \<and> occurs_at ?a ?s 0 2 (=) q"
    using o(1) by (intro exI[of _ 0]) simp
  from v simd_search_last_occurrence[of 2 0 5 0 False ?a ?s "(=)" False]
  obtain r where r: "simd_search False ?a 0 5 ?s 0 2 (=) False = Some r"
    "if \<exists>q. 0 \<le> q \<and> q + (2 - 0) \<le> 5 \<and> occurs_at ?a ?s 0 2 (=) q
     then 0 \<le> r \<and> r + (2 - 0) \<le> 5 \<and> occurs_at ?a ?s 0 2 (=) r
          \<and> (\<forall>q. r < q \<and> q + (2 - 0) \<le> 5 \<longrightarrow> \<not> occurs_at ?a ?s 0 2 (=) q)
     else r = 5"
    by blast
  have "\<forall>q. r < q \<and> q + (2 - 0) \<le> 5 \<longrightarrow> \<not> occurs_at ?a ?s 0 2 (=) q"
    using r(2) unfolding if_P[OF ex] by blast
  moreover have "r = 2" using r(1) e by simp
  ultimately have n3: "\<not> occurs_at ?a ?s 0 2 (=) 3" by simp
  have d1: "simd_search False ?a 0 5 ?s 0 0 (=) False = Some 5"
    using simd_search_last_occurrence[of 0 0 5 0 False ?a ?s "(=)" False] by simp
  have d2: "simd_search False ?a 0 2 [1, 2, 1 :: int] 0 3 (=) True = Some 2"
    using simd_search_last_occurrence[of 3 0 2 0 False ?a "[1, 2, 1 :: int]" "(=)" True] by simp
  show ?thesis using v o e n3 d1 d2 by simp
qed

end
